theory Spec2Isabelle
  imports
    Main
    "HOL-Library.Word"
    "HOL-Library.Multiset"
    "HOL-Library.List_Lexorder"
    "HOL-Library.Char_ord"
    "HOL-Library.Product_Lexorder"
begin

section \<open>Data model of \<^verbatim>\<open>submissions/dauom/main.cpp\<close>\<close>

text \<open>
  The program maps \<^verbatim>\<open>input.txt\<close> into memory, cuts the mapping into blocks of
  100 MiB, lets a pool of threads decode the records of each block into one
  \<^verbatim>\<open>Result\<close> per thread, merges the per-thread results and prints the cheapest
  city with five of its products.

  Conventions of the embedding.
  \<^item> The mapped memory is a \<open>string\<close> (a list of bytes); a \<^verbatim>\<open>char *\<close> is an offset into
    it. Reading an offset outside the list is the fault \<open>SegFault\<close>.
  \<^item> \<^verbatim>\<open>long long\<close> is a 64-bit word: \<open>+\<close> and \<open>*\<close> wrap around, and the comparisons
    of the source, which are signed, are comparisons of \<open>sint\<close>.
  \<^item> The arrays \<^verbatim>\<open>city_cost[NUM_CITIES]\<close> and \<^verbatim>\<open>product_cost[NUM_CITIES][NUM_CITIES]\<close>
    are the first two members of \<^verbatim>\<open>Result\<close>, both of \<^verbatim>\<open>long long\<close>, so they lie side by
    side, and the source indexes them without any check. An indexed access is
    the access to a cell of that block, counted from \<^verbatim>\<open>city_cost[0]\<close>: the cell of
    \<^verbatim>\<open>city_cost[i]\<close> is \<open>i\<close>, the cell of \<^verbatim>\<open>product_cost[i][j]\<close> is
    \<open>NUM_CITIES + NUM_CITIES * i + j\<close>. So \<^verbatim>\<open>product_cost[0][102]\<close> is
    \<^verbatim>\<open>product_cost[1][0]\<close>, \<^verbatim>\<open>city_cost[102]\<close> is \<^verbatim>\<open>product_cost[0][0]\<close> and
    \<^verbatim>\<open>product_cost[-1][j]\<close> is \<^verbatim>\<open>city_cost[j]\<close>; the run carries on after such an
    access. Only an access in front of \<^verbatim>\<open>city_cost[0]\<close> or behind
    \<^verbatim>\<open>product_cost[101][101]\<close>, where the block ends and the hash tables of the
    \<^verbatim>\<open>Result\<close> begin, is the fault \<open>OutsideArrays\<close>.
  \<^item> A \<^verbatim>\<open>gp_hash_table<string, int>\<close> is an association list with distinct keys.
    The model iterates it in insertion order; the order in which the hash table
    iterates is not fixed by the source, and the theorems on \<open>merge\<close> and \<open>ans\<close>
    that matter are stated for every order of the entries.
\<close>

datatype fault = SegFault | OutsideArrays | BusyWaitForever | Exit255

type_synonym longlong = "64 word"

type_synonym ht = "(string \<times> int) list"

definition NUM_CITIES :: int where
  "NUM_CITIES = 102"

record MappedFile =
  fd :: int
  file_size :: nat
  file_data :: string

record Result =
  city_cost :: "int \<Rightarrow> longlong"
  product_cost :: "int \<times> int \<Rightarrow> longlong"
  product_id :: ht
  city_id :: ht

text \<open>\<^verbatim>\<open>(long long)4e18\<close>, the initial value of every cell of \<^verbatim>\<open>product_cost\<close> and of
  \<^verbatim>\<open>min_city_cost\<close>.\<close>

definition sentinel :: longlong where
  "sentinel = 4000000000000000000"

text \<open>The constructor \<^verbatim>\<open>Result()\<close>.\<close>

definition Result_init :: Result where
  "Result_init =
     \<lparr>city_cost = (\<lambda>_. 0), product_cost = (\<lambda>_. sentinel), product_id = [], city_id = []\<rparr>"

text \<open>
  The cells of the two arrays. \<open>city_cost_at i\<close> and \<open>product_cost_at i j\<close> are the
  numbers of the cells that \<^verbatim>\<open>city_cost[i]\<close> and \<^verbatim>\<open>product_cost[i][j]\<close> address;
  \<open>in_arrays\<close> says that a cell belongs to one of the two arrays; \<open>load\<close> and
  \<open>store\<close> read and write the cell of a given number, which is a cell of
  \<^verbatim>\<open>city_cost\<close> below \<^verbatim>\<open>NUM_CITIES\<close> and a cell of \<^verbatim>\<open>product_cost\<close>, row by row, from
  there on.
\<close>

definition city_cost_at :: "int \<Rightarrow> int" where
  "city_cost_at i = i"

definition product_cost_at :: "int \<Rightarrow> int \<Rightarrow> int" where
  "product_cost_at i j = NUM_CITIES + NUM_CITIES * i + j"

definition in_arrays :: "int \<Rightarrow> bool" where
  "in_arrays a = (0 \<le> a \<and> a < NUM_CITIES + NUM_CITIES * NUM_CITIES)"

definition load :: "Result \<Rightarrow> int \<Rightarrow> longlong" where
  "load r a =
     (if a < NUM_CITIES then city_cost r a
      else product_cost r ((a - NUM_CITIES) div NUM_CITIES, (a - NUM_CITIES) mod NUM_CITIES))"

definition store :: "Result \<Rightarrow> int \<Rightarrow> longlong \<Rightarrow> Result" where
  "store r a v =
     (if a < NUM_CITIES then r\<lparr>city_cost := (city_cost r)(a := v)\<rparr>
      else r\<lparr>product_cost := (product_cost r)
               (((a - NUM_CITIES) div NUM_CITIES, (a - NUM_CITIES) mod NUM_CITIES) := v)\<rparr>)"

text \<open>\<^verbatim>\<open>std::min\<close> on \<^verbatim>\<open>long long\<close>: the second argument when it is smaller (signed),
  the first one otherwise.\<close>

definition smin :: "longlong \<Rightarrow> longlong \<Rightarrow> longlong" where
  "smin a b = (if sint b < sint a then b else a)"

text \<open>A loop over a container whose body may fault.\<close>

fun for_each :: "('a \<Rightarrow> 's \<Rightarrow> fault + 's) \<Rightarrow> 'a list \<Rightarrow> 's \<Rightarrow> fault + 's" where
  "for_each body [] s = Inr s"
| "for_each body (x # xs) s =
     (case body x s of Inl e \<Rightarrow> Inl e | Inr s' \<Rightarrow> for_each body xs s')"

section \<open>Mapping the input\<close>

text \<open>
  \<^verbatim>\<open>map_input\<close>: \<^verbatim>\<open>open\<close>, \<^verbatim>\<open>fstat\<close>, \<^verbatim>\<open>mmap\<close>. A file that cannot be opened (\<open>None\<close>) and
  a file of length 0 (\<^verbatim>\<open>mmap\<close> refuses a length of 0) end in \<^verbatim>\<open>handle_error\<close>, which
  exits with status 255. The mapping is readable up to the end of the last page,
  and the bytes behind the end of the file read as zero. The page size and the
  descriptor are parameters.
\<close>

definition map_input :: "nat \<Rightarrow> int \<Rightarrow> string option \<Rightarrow> fault + MappedFile" where
  "map_input page_size desc file =
     (case file of
        None \<Rightarrow> Inl Exit255
      | Some bytes \<Rightarrow>
          if bytes = [] then Inl Exit255
          else Inr \<lparr>fd = desc, file_size = length bytes,
                    file_data = bytes @
                      replicate ((page_size - length bytes mod page_size) mod page_size)
                        (CHR 0x00)\<rparr>)"

section \<open>Field decoder\<close>

definition newline :: char where
  "newline = CHR 0x0A"

text \<open>\<^verbatim>\<open>c <= '9' && c >= '0'\<close>\<close>

definition is_digit :: "char \<Rightarrow> bool" where
  "is_digit c = ((of_char c :: nat) \<le> 57 \<and> (of_char c :: nat) \<ge> 48)"

text \<open>\<^verbatim>\<open>consume_str(start, s)\<close>: returns the new cursor and the new contents of \<open>s\<close>.\<close>

function consume_str :: "string \<Rightarrow> nat \<Rightarrow> string \<Rightarrow> fault + (nat \<times> string)" where
  "consume_str mem start s =
     (if start < length mem then
        (let c = mem ! start in
         if c \<noteq> CHR 0x00 \<and> c \<noteq> CHR '','' \<and> c \<noteq> newline
         then consume_str mem (start + 1) (s @ [c])
         else Inr (start + 1, s))
      else Inl SegFault)"
  by pat_completeness auto
termination
  by (relation "measure (\<lambda>(mem, start, s). length mem - start)") auto

declare consume_str.simps [simp del]

text \<open>The first loop of \<^verbatim>\<open>consume_float_as_long\<close> (the integral part): returns the
  cursor, the accumulated value and the byte \<open>c\<close> that ended the loop.\<close>

function integral_part :: "string \<Rightarrow> nat \<Rightarrow> longlong \<Rightarrow> fault + (nat \<times> longlong \<times> char)" where
  "integral_part mem start a =
     (if start < length mem then
        (let c = mem ! start in
         if is_digit c
         then integral_part mem (start + 1) (a * 10 + of_nat (of_char c) - 48)
         else Inr (start, a, c))
      else Inl SegFault)"
  by pat_completeness auto
termination
  by (relation "measure (\<lambda>(mem, start, a). length mem - start)") auto

declare integral_part.simps [simp del]

text \<open>The second loop (the fractional part), which also counts the digits.\<close>

function fractional_part ::
  "string \<Rightarrow> nat \<Rightarrow> longlong \<Rightarrow> int \<Rightarrow> fault + (nat \<times> longlong \<times> int)" where
  "fractional_part mem start a cnt =
     (if start < length mem then
        (let c = mem ! start in
         if is_digit c
         then fractional_part mem (start + 1) (a * 10 + of_nat (of_char c) - 48) (cnt + 1)
         else Inr (start, a, cnt))
      else Inl SegFault)"
  by pat_completeness auto
termination
  by (relation "measure (\<lambda>(mem, start, a, cnt). length mem - start)") auto

declare fractional_part.simps [simp del]

definition consume_float_as_long :: "string \<Rightarrow> nat \<Rightarrow> fault + (nat \<times> longlong)" where
  "consume_float_as_long mem start =
     (case integral_part mem start 0 of
        Inl e \<Rightarrow> Inl e
      | Inr (start1, ans1, c) \<Rightarrow>
          if c = CHR ''.'' then
            (case fractional_part mem (start1 + 1) ans1 0 of
               Inl e \<Rightarrow> Inl e
             | Inr (start2, ans2, cnt) \<Rightarrow>
                 (let ans3 = (if cnt = 1 then ans2 * 10 else ans2);
                      start3 = start2 + 1
                  in if start3 < length mem
                     then Inr (if mem ! start3 = newline then start3 + 1 else start3, ans3)
                     else Inl SegFault))
          else Inr (start1 + 1, ans1))"

section \<open>Entity dictionary\<close>

text \<open>
  \<^verbatim>\<open>find_or_create(id_map, k)\<close>: returns the identifier and the table after the call.
  In \<^verbatim>\<open>id = id_map[k] = id_map.size()\<close> the right operand is evaluated first (the
  sequencing of an assignment since C++17), so the new identifier is the size of
  the table before the insertion. The identifier is an \<^verbatim>\<open>int\<close>; the conversion of the
  size is exact for every table of fewer than \<open>2 ^ 31\<close> entries, and an identifier
  of that size addresses a cell far behind the arrays, so the model keeps the
  size as it is.
\<close>

definition find_or_create :: "ht \<Rightarrow> string \<Rightarrow> int \<times> ht" where
  "find_or_create id_map k =
     (case map_of id_map k of
        None \<Rightarrow> (int (length id_map), id_map @ [(k, int (length id_map))])
      | Some v \<Rightarrow> (v, id_map))"

section \<open>Processing a chunk\<close>

text \<open>Lines 198 to 201: the update of a \<^verbatim>\<open>Result\<close> by one decoded record. The two
  statements on the arrays run one after the other, the second one on the cells
  that the first one has left.\<close>

definition process_record :: "Result \<Rightarrow> string \<Rightarrow> string \<Rightarrow> longlong \<Rightarrow> fault + Result" where
  "process_record r city product price =
     (let (cid, cmap) = find_or_create (city_id r) city;
          (pid, pmap) = find_or_create (product_id r) product;
          r0 = r\<lparr>city_id := cmap, product_id := pmap\<rparr>
      in if in_arrays (product_cost_at cid pid) \<and> in_arrays (city_cost_at cid)
         then (let r1 = store r0 (product_cost_at cid pid)
                          (smin (load r0 (product_cost_at cid pid)) price)
               in Inr (store r1 (city_cost_at cid) (load r1 (city_cost_at cid) + price)))
         else Inl OutsideArrays)"

text \<open>\<^verbatim>\<open>rawmemchr(start, c)\<close> scans forward without a bound.\<close>

function rawmemchr :: "string \<Rightarrow> nat \<Rightarrow> char \<Rightarrow> fault + nat" where
  "rawmemchr mem start c =
     (if start < length mem then
        (if mem ! start = c then Inr start else rawmemchr mem (start + 1) c)
      else Inl SegFault)"
  by pat_completeness auto
termination
  by (relation "measure (\<lambda>(mem, start, c). length mem - start)") auto

declare rawmemchr.simps [simp del]

text \<open>One record of the chunk: two strings and a price; returns the cursor behind it.\<close>

definition consume_record ::
  "string \<Rightarrow> nat \<Rightarrow> fault + (nat \<times> string \<times> string \<times> longlong)" where
  "consume_record mem cur =
     (case consume_str mem cur [] of
        Inl e \<Rightarrow> Inl e
      | Inr (cur1, city) \<Rightarrow>
          (case consume_str mem cur1 [] of
             Inl e \<Rightarrow> Inl e
           | Inr (cur2, product) \<Rightarrow>
               (case consume_float_as_long mem cur2 of
                  Inl e \<Rightarrow> Inl e
                | Inr (cur3, price) \<Rightarrow> Inr (cur3, city, product, price))))"

text \<open>Every decoder moves the cursor forward; the loop of \<^verbatim>\<open>process_chunk\<close> ends
  for that reason.\<close>

lemma consume_str_forward: "consume_str mem start s = Inr (p, t) \<Longrightarrow> start < p"
proof (induction mem start s rule: consume_str.induct)
  case (1 mem start s)
  show ?case
  proof (cases "start < length mem \<and> mem ! start \<noteq> CHR 0x00 \<and> mem ! start \<noteq> CHR '',''
      \<and> mem ! start \<noteq> newline")
    case True
    with "1.prems" have "consume_str mem (start + 1) (s @ [mem ! start]) = Inr (p, t)"
      by (subst (asm) consume_str.simps) (simp add: Let_def)
    with True "1.IH" have "start + 1 < p" by simp
    then show ?thesis by simp
  next
    case False
    with "1.prems" show ?thesis
      by (subst (asm) consume_str.simps) (auto simp: Let_def split: if_splits)
  qed
qed

lemma integral_part_forward: "integral_part mem start a = Inr (p, v, c) \<Longrightarrow> start \<le> p"
proof (induction mem start a rule: integral_part.induct)
  case (1 mem start a)
  show ?case
  proof (cases "start < length mem \<and> is_digit (mem ! start)")
    case True
    with "1.prems" have
      "integral_part mem (start + 1) (a * 10 + of_nat (of_char (mem ! start)) - 48) = Inr (p, v, c)"
      by (subst (asm) integral_part.simps) (simp add: Let_def)
    with True "1.IH" have "start + 1 \<le> p" by simp
    then show ?thesis by simp
  next
    case False
    with "1.prems" show ?thesis
      by (subst (asm) integral_part.simps) (auto simp: Let_def split: if_splits)
  qed
qed

lemma fractional_part_forward:
  "fractional_part mem start a n = Inr (p, v, m) \<Longrightarrow> start \<le> p"
proof (induction mem start a n rule: fractional_part.induct)
  case (1 mem start a n)
  show ?case
  proof (cases "start < length mem \<and> is_digit (mem ! start)")
    case True
    with "1.prems" have
      "fractional_part mem (start + 1) (a * 10 + of_nat (of_char (mem ! start)) - 48) (n + 1)
         = Inr (p, v, m)"
      by (subst (asm) fractional_part.simps) (simp add: Let_def)
    with True "1.IH" have "start + 1 \<le> p" by simp
    then show ?thesis by simp
  next
    case False
    with "1.prems" show ?thesis
      by (subst (asm) fractional_part.simps) (auto simp: Let_def split: if_splits)
  qed
qed

lemma consume_float_as_long_forward:
  "consume_float_as_long mem start = Inr (p, v) \<Longrightarrow> start < p"
  unfolding consume_float_as_long_def
  by (auto simp: Let_def split: sum.splits prod.splits if_splits
        dest!: integral_part_forward fractional_part_forward)

lemma consume_record_forward:
  "consume_record mem cur = Inr (p, c, q, v) \<Longrightarrow> cur < p"
  unfolding consume_record_def
  by (auto split: sum.splits prod.splits
        dest!: consume_str_forward consume_float_as_long_forward)

text \<open>The loop \<^verbatim>\<open>while (cur < end)\<close> of \<^verbatim>\<open>process_chunk\<close>.\<close>

function process_chunk_loop :: "string \<Rightarrow> Result \<Rightarrow> nat \<Rightarrow> nat \<Rightarrow> fault + Result" where
  "process_chunk_loop mem r cur chunk_end =
     (if cur < chunk_end then
        (case consume_record mem cur of
           Inl e \<Rightarrow> Inl e
         | Inr (cur', city, product, price) \<Rightarrow>
             (case process_record r city product price of
                Inl e \<Rightarrow> Inl e
              | Inr r' \<Rightarrow> process_chunk_loop mem r' cur' chunk_end))
      else Inr r)"
  by pat_completeness auto
termination
  by (relation "measure (\<lambda>(mem, r, cur, chunk_end). chunk_end - cur)")
     (auto dest!: consume_record_forward)

declare process_chunk_loop.simps [simp del]

text \<open>\<^verbatim>\<open>process_chunk(r, start, end)\<close>: returns the \<^verbatim>\<open>Result\<close> after the call.\<close>

definition process_chunk :: "string \<Rightarrow> Result \<Rightarrow> nat \<Rightarrow> nat \<Rightarrow> fault + Result" where
  "process_chunk mem r start chunk_end =
     (if start < length mem then
        (case (if mem ! start \<noteq> newline then rawmemchr mem start newline else Inr start) of
           Inl e \<Rightarrow> Inl e
         | Inr start1 \<Rightarrow> process_chunk_loop mem r (start1 + 1) chunk_end)
      else Inl SegFault)"

section \<open>Chunk partitioner and thread pool\<close>

definition block_size :: nat where
  "block_size = 1024 * 1024 * 100"

text \<open>The loop \<^verbatim>\<open>for (size_t i = 0; i < chunks_count; i++)\<close> of
  \<^verbatim>\<open>process_concurrently\<close>: the byte ranges of the jobs it queues, from index \<open>i\<close> on.\<close>

function chunk_jobs :: "nat \<Rightarrow> nat \<Rightarrow> nat \<Rightarrow> (nat \<times> nat) list" where
  "chunk_jobs fsize chunks_count i =
     (if i < chunks_count then
        (let chunk_start = i * block_size;
             chunk_end = (if i + 1 = chunks_count then fsize else (i + 1) * block_size)
         in if chunk_start \<ge> chunk_end then []
            else (chunk_start, chunk_end) # chunk_jobs fsize chunks_count (i + 1))
      else [])"
  by pat_completeness auto
termination
  by (relation "measure (\<lambda>(fsize, chunks_count, i). chunks_count - i)") auto

declare chunk_jobs.simps [simp del]

text \<open>
  The pool. Thread \<open>id\<close> runs every job it takes from the queue on \<^verbatim>\<open>results[id]\<close>,
  one job after the other, and the queue hands the jobs out in the order in which
  they were queued; no two threads share a slot. So the contents of the slots
  after \<^verbatim>\<open>stop()\<close> are fixed by which thread took which job; that choice is the
  parameter \<open>sched\<close> (job number to thread, taken modulo the number of threads).
  With no thread at all (\<^verbatim>\<open>hardware_concurrency()\<close> may return 0) a queued job is
  never taken and \<^verbatim>\<open>while (thread_pool.busy())\<close> spins forever.
\<close>

fun run_jobs ::
  "string \<Rightarrow> (nat \<Rightarrow> nat) \<Rightarrow> nat \<Rightarrow> (nat \<times> nat) list \<Rightarrow> Result list \<Rightarrow> fault + Result list" where
  "run_jobs mem sched j [] results = Inr results"
| "run_jobs mem sched j ((chunk_start, chunk_end) # jobs) results =
     (if results = [] then Inl BusyWaitForever
      else (let w = sched j mod length results in
            case process_chunk mem (results ! w) chunk_start chunk_end of
              Inl e \<Rightarrow> Inl e
            | Inr r \<Rightarrow> run_jobs mem sched (j + 1) jobs (results[w := r])))"

definition process_concurrently ::
  "nat \<Rightarrow> (nat \<Rightarrow> nat) \<Rightarrow> MappedFile \<Rightarrow> fault + Result list" where
  "process_concurrently num_threads sched mp =
     (let chunks_count = file_size mp div block_size
      in run_jobs (file_data mp) sched 0 (chunk_jobs (file_size mp) chunks_count 0)
           (replicate num_threads Result_init))"

section \<open>Merger\<close>

text \<open>The innermost loop of \<^verbatim>\<open>merge\<close>, over \<^verbatim>\<open>r.product_id\<close>.\<close>

definition merge_product ::
  "Result \<Rightarrow> int \<Rightarrow> int \<Rightarrow> string \<times> int \<Rightarrow> Result \<Rightarrow> fault + Result" where
  "merge_product r cid_second ncid pid mr =
     (let (npid, pmap) = find_or_create (product_id mr) (fst pid);
          mr0 = mr\<lparr>product_id := pmap\<rparr>
      in if in_arrays (product_cost_at ncid npid) \<and> in_arrays (product_cost_at cid_second (snd pid))
         then Inr (store mr0 (product_cost_at ncid npid)
                     (smin (load mr0 (product_cost_at ncid npid))
                           (load r (product_cost_at cid_second (snd pid)))))
         else Inl OutsideArrays)"

text \<open>The loop over \<^verbatim>\<open>r.city_id\<close>.\<close>

definition merge_city :: "Result \<Rightarrow> string \<times> int \<Rightarrow> Result \<Rightarrow> fault + Result" where
  "merge_city r cid mr =
     (let (ncid, cmap) = find_or_create (city_id mr) (fst cid);
          mr0 = mr\<lparr>city_id := cmap\<rparr>
      in if in_arrays (city_cost_at ncid) \<and> in_arrays (city_cost_at (snd cid))
         then for_each (merge_product r (snd cid) ncid) (product_id r)
                (store mr0 (city_cost_at ncid)
                   (load mr0 (city_cost_at ncid) + load r (city_cost_at (snd cid))))
         else Inl OutsideArrays)"

definition merge_result :: "Result \<Rightarrow> Result \<Rightarrow> fault + Result" where
  "merge_result r mr = for_each (merge_city r) (city_id r) mr"

definition merge :: "Result list \<Rightarrow> fault + Result" where
  "merge results = for_each merge_result results Result_init"

section \<open>Report builder\<close>

text \<open>
  The report is the list of the lines that \<^verbatim>\<open>ans\<close> prints, each a name and an amount
  in hundredths (the signed value of the \<^verbatim>\<open>long long\<close>); the division by \<^verbatim>\<open>100.0\<close> and
  the format \<^verbatim>\<open>%.2f\<close> are floating point and are left to the reader of the lines.
  The first loop of \<^verbatim>\<open>ans\<close> carries \<^verbatim>\<open>min_city_cost\<close>, \<^verbatim>\<open>city\<close> and \<^verbatim>\<open>city_id\<close>.
\<close>

definition ans_city ::
  "Result \<Rightarrow> string \<times> int \<Rightarrow> longlong \<times> string \<times> int \<Rightarrow> fault + (longlong \<times> string \<times> int)" where
  "ans_city result cid st =
     (case st of (min_city_cost, city, cty_id) \<Rightarrow>
        if in_arrays (city_cost_at (snd cid)) then
          (let c = load result (city_cost_at (snd cid))
           in if sint min_city_cost > sint c then Inr (c, fst cid, snd cid)
              else if c = min_city_cost \<and> city > fst cid then Inr (min_city_cost, fst cid, snd cid)
              else Inr (min_city_cost, city, cty_id))
        else Inl OutsideArrays)"

text \<open>The second loop: one pair of cost and name for each entry of \<^verbatim>\<open>product_id\<close>. When
  the first loop has chosen no city, \<^verbatim>\<open>city_id\<close> is still \<open>- 1\<close>, and
  \<^verbatim>\<open>product_cost[-1][j]\<close> is the cell of \<^verbatim>\<open>city_cost[j]\<close>.\<close>

definition ans_product ::
  "Result \<Rightarrow> int \<Rightarrow> string \<times> int \<Rightarrow> (int \<times> string) list \<Rightarrow> fault + (int \<times> string) list" where
  "ans_product result cty_id pid products =
     (if in_arrays (product_cost_at cty_id (snd pid))
      then Inr (products @ [(sint (load result (product_cost_at cty_id (snd pid))), fst pid)])
      else Inl OutsideArrays)"

text \<open>\<^verbatim>\<open>products.resize(5)\<close> cuts the vector to five elements or fills it up to five with
  value-initialised pairs, \<open>(0, "")\<close>.\<close>

definition resize5 :: "(int \<times> string) list \<Rightarrow> (int \<times> string) list" where
  "resize5 products = take 5 products @ replicate (5 - length products) (0, [])"

type_synonym report = "(string \<times> int) list"

definition ans :: "Result \<Rightarrow> fault + report" where
  "ans result =
     (case for_each (ans_city result) (city_id result) (sentinel, [], - 1) of
        Inl e \<Rightarrow> Inl e
      | Inr (min_city_cost, city, cty_id) \<Rightarrow>
          (case for_each (ans_product result cty_id) (product_id result) [] of
             Inl e \<Rightarrow> Inl e
           | Inr products \<Rightarrow>
               Inr ((city, sint min_city_cost) #
                    map (\<lambda>p. (snd p, fst p)) (resize5 (sort products)))))"

section \<open>The whole run\<close>

definition main :: "nat \<Rightarrow> int \<Rightarrow> nat \<Rightarrow> (nat \<Rightarrow> nat) \<Rightarrow> string option \<Rightarrow> fault + report" where
  "main page_size desc num_threads sched file =
     (case map_input page_size desc file of
        Inl e \<Rightarrow> Inl e
      | Inr mp \<Rightarrow>
          (case process_concurrently num_threads sched mp of
             Inl e \<Rightarrow> Inl e
           | Inr results \<Rightarrow>
               (case merge results of
                  Inl e \<Rightarrow> Inl e
                | Inr result \<Rightarrow> ans result)))"

section \<open>Notions used in the statements\<close>

text \<open>
  Everything above is the program. What follows in this section are the notions in
  which the properties of the program are stated: readings of digit strings, the
  contents of an aggregate, the aggregate that a list of records asks for, the
  records that a chunk decodes, and the concrete inputs on which the general
  theorems are applied.
\<close>

text \<open>The value that the two loops accumulate over a run of digits, and the decimal
  reading of the same digits.\<close>

definition accumulate :: "longlong \<Rightarrow> string \<Rightarrow> longlong" where
  "accumulate a ds = foldl (\<lambda>a c. a * 10 + of_nat (of_char c) - 48) a ds"

definition decimal :: "string \<Rightarrow> nat" where
  "decimal ds = foldl (\<lambda>n c. 10 * n + (of_char c - 48)) 0 ds"

text \<open>The table after interning the keys \<open>ks\<close> one after the other, starting from the
  empty table; and the keys in the order of their first occurrence.\<close>

definition intern_all :: "string list \<Rightarrow> ht" where
  "intern_all ks = foldl (\<lambda>d k. snd (find_or_create d k)) [] ks"

definition first_seen :: "string list \<Rightarrow> string list" where
  "first_seen ks = rev (remdups (rev ks))"

text \<open>The input of the round-trip scenario, 55 bytes.\<close>

definition roundtrip :: string where
  "roundtrip = ''city,product,price\<newline>A,X,1.50\<newline>A,Y,2.00\<newline>B,X,1.00\<newline>B,X,0.50\<newline>''"

text \<open>The pool, the merger and the report builder on a given list of jobs; \<open>main\<close> is
  this pipeline on the jobs that \<open>process_concurrently\<close> queues.\<close>

definition report_of_jobs :: "string \<Rightarrow> nat \<Rightarrow> (nat \<Rightarrow> nat) \<Rightarrow> (nat \<times> nat) list \<Rightarrow> fault + report" where
  "report_of_jobs mem num_threads sched jobs =
     (case run_jobs mem sched 0 jobs (replicate num_threads Result_init) of
        Inl e \<Rightarrow> Inl e
      | Inr results \<Rightarrow> (case merge results of Inl e \<Rightarrow> Inl e | Inr result \<Rightarrow> ans result))"

text \<open>What \<open>ans\<close> prints for a \<^verbatim>\<open>Result\<close> without any entry: a city line with the empty
  name and the initial value of \<^verbatim>\<open>min_city_cost\<close>, and five value-initialised product
  lines.\<close>

definition no_data_report :: report where
  "no_data_report = ([], sint sentinel) # replicate 5 ([], 0)"

text \<open>
  The invariant of every \<^verbatim>\<open>Result\<close> that the program builds as long as its tables
  hold at most \<^verbatim>\<open>NUM_CITIES\<close> names each (\<open>in_bounds\<close> for an identifier), and what
  such a \<^verbatim>\<open>Result\<close> stands for: the set of its city names, the set of its product names, the sum
  stored for a city name (\<open>csum\<close>, the cell of \<^verbatim>\<open>city_cost\<close> at the identifier
  of the name) and the minimum stored for a city name and a product name
  (\<open>pmin\<close>, the cell of \<^verbatim>\<open>product_cost\<close> at the two identifiers). A table is in
  order (\<open>dict_ok\<close>) when its keys are distinct and its identifiers are the
  numbers below its size, each once, in whatever order the entries stand.
\<close>

definition in_bounds :: "int \<Rightarrow> bool" where
  "in_bounds i = (0 \<le> i \<and> i < NUM_CITIES)"

definition dict_ok :: "ht \<Rightarrow> bool" where
  "dict_ok d = (distinct (map fst d) \<and> distinct (map snd d)
                \<and> snd ` set d = {i. 0 \<le> i \<and> i < int (length d)})"

definition well_formed :: "Result \<Rightarrow> bool" where
  "well_formed r = (dict_ok (city_id r) \<and> dict_ok (product_id r)
           \<and> int (length (city_id r)) \<le> NUM_CITIES \<and> int (length (product_id r)) \<le> NUM_CITIES
           \<and> (\<forall>i. int (length (city_id r)) \<le> i \<longrightarrow> city_cost r i = 0)
           \<and> (\<forall>i j. int (length (city_id r)) \<le> i \<or> int (length (product_id r)) \<le> j
                  \<longrightarrow> product_cost r (i, j) = sentinel)
           \<and> (\<forall>i j. sint (product_cost r (i, j)) \<le> sint sentinel))"

definition cities :: "Result \<Rightarrow> string set" where
  "cities r = fst ` set (city_id r)"

definition products :: "Result \<Rightarrow> string set" where
  "products r = fst ` set (product_id r)"

definition csum :: "Result \<Rightarrow> string \<Rightarrow> longlong" where
  "csum r c = (case map_of (city_id r) c of None \<Rightarrow> 0 | Some i \<Rightarrow> city_cost r i)"

definition pmin :: "Result \<Rightarrow> string \<Rightarrow> string \<Rightarrow> longlong" where
  "pmin r c p =
     (case map_of (city_id r) c of
        None \<Rightarrow> sentinel
      | Some i \<Rightarrow> (case map_of (product_id r) p of
                     None \<Rightarrow> sentinel
                   | Some j \<Rightarrow> product_cost r (i, j)))"

text \<open>
  A row is a decoded record: city, product, price. \<open>rsum\<close> and \<open>rmin\<close> are the
  sum and the minimum that the specification asks for, computed from the rows
  themselves; \<open>represents r rows\<close> says that the \<^verbatim>\<open>Result\<close> \<open>r\<close> holds exactly these
  for every name. \<open>capacity\<close> says that the rows name at most \<^verbatim>\<open>NUM_CITIES\<close> cities
  and at most \<^verbatim>\<open>NUM_CITIES\<close> products, the sizes of the arrays.
\<close>

type_synonym row = "string \<times> string \<times> longlong"

definition row_city :: "row \<Rightarrow> string" where "row_city x = fst x"
definition row_product :: "row \<Rightarrow> string" where "row_product x = fst (snd x)"
definition row_price :: "row \<Rightarrow> longlong" where "row_price x = snd (snd x)"

definition rsum :: "row list \<Rightarrow> string \<Rightarrow> longlong" where
  "rsum rows c = sum_list (map row_price (filter (\<lambda>x. row_city x = c) rows))"

definition rmin :: "row list \<Rightarrow> string \<Rightarrow> string \<Rightarrow> longlong" where
  "rmin rows c p =
     foldl smin sentinel (map row_price (filter (\<lambda>x. row_city x = c \<and> row_product x = p) rows))"

definition represents :: "Result \<Rightarrow> row list \<Rightarrow> bool" where
  "represents r rows =
     (well_formed r \<and> cities r = row_city ` set rows \<and> products r = row_product ` set rows
      \<and> (\<forall>c. csum r c = rsum rows c) \<and> (\<forall>c p. pmin r c p = rmin rows c p))"

definition process_rows :: "row list \<Rightarrow> Result \<Rightarrow> fault + Result" where
  "process_rows rows r = for_each (\<lambda>x r. process_record r (row_city x) (row_product x) (row_price x)) rows r"

definition capacity :: "row list \<Rightarrow> bool" where
  "capacity rows = (int (card (row_city ` set rows)) \<le> NUM_CITIES
                    \<and> int (card (row_product ` set rows)) \<le> NUM_CITIES)"

text \<open>
  The pipeline with the decoding of the bytes left out: slot \<open>k\<close> of the pool has
  processed the rows \<open>rowss ! k\<close>, the slots are merged, and the report is built.
\<close>

fun results_of_rows :: "row list list \<Rightarrow> fault + Result list" where
  "results_of_rows [] = Inr []"
| "results_of_rows (rows # rowss) =
     (case process_rows rows Result_init of
        Inl e \<Rightarrow> Inl e
      | Inr r \<Rightarrow> (case results_of_rows rowss of Inl e \<Rightarrow> Inl e | Inr rs \<Rightarrow> Inr (r # rs)))"

definition aggregate_of_rows :: "row list list \<Rightarrow> fault + Result" where
  "aggregate_of_rows rowss = (case results_of_rows rowss of Inl e \<Rightarrow> Inl e | Inr rs \<Rightarrow> merge rs)"

definition report_of_rows :: "row list list \<Rightarrow> fault + report" where
  "report_of_rows rowss = (case aggregate_of_rows rowss of Inl e \<Rightarrow> Inl e | Inr mr \<Rightarrow> ans mr)"

text \<open>
  For the report builder: the invariant of the first loop of \<open>ans\<close> after the entries
  \<open>cs\<close> of the city table (the state is the least pair of total and name seen so
  far, or still the initial state when no total was below the initial value);
  the condition that some city has a total below the initial value of
  \<^verbatim>\<open>min_city_cost\<close>; and the sorted vector that the second loop and \<^verbatim>\<open>std::sort\<close>
  build for the city \<open>w\<close>.
\<close>

definition scan_inv :: "Result \<Rightarrow> (string \<times> int) list \<Rightarrow> longlong \<times> string \<times> int \<Rightarrow> bool" where
  "scan_inv r cs st =
     (case st of (m, w, i) \<Rightarrow>
        if \<exists>e\<in>set cs. sint (city_cost r (snd e)) < sint sentinel
        then (w, i) \<in> set cs \<and> m = city_cost r i \<and> sint m < sint sentinel
             \<and> (\<forall>e\<in>set cs. (sint m, w) \<le> (sint (city_cost r (snd e)), fst e))
        else m = sentinel \<and> w = [] \<and> i = - 1)"

definition below_sentinel :: "Result \<Rightarrow> bool" where
  "below_sentinel r = (\<exists>c\<in>cities r. sint (csum r c) < sint sentinel)"

definition product_lines :: "Result \<Rightarrow> string \<Rightarrow> (int \<times> string) list" where
  "product_lines r w = sort (map (\<lambda>p. (sint (pmin r w p), p)) (map fst (product_id r)))"

text \<open>The sorted vector when the first loop has chosen no city: the product with the
  identifier \<open>j\<close> comes with the cell \<open>j\<close> of \<^verbatim>\<open>city_cost\<close>, the total of the city with the
  same identifier.\<close>

definition stray_lines :: "Result \<Rightarrow> (int \<times> string) list" where
  "stray_lines r = sort (map (\<lambda>e. (sint (city_cost r (snd e)), fst e)) (product_id r))"

text \<open>Some city of the rows has a total below the initial value of \<^verbatim>\<open>min_city_cost\<close>.\<close>

definition has_winner :: "row list \<Rightarrow> bool" where
  "has_winner rows = (\<exists>c\<in>row_city ` set rows. sint (rsum rows c) < sint sentinel)"

text \<open>\<open>chunk_rows\<close> is \<open>process_chunk\<close> with the update of the \<^verbatim>\<open>Result\<close> left out: the
  same realignment of the start, the same loop and the same decoders, collecting
  the decoded records in the order in which the chunk decodes them.\<close>

function decode_loop :: "string \<Rightarrow> nat \<Rightarrow> nat \<Rightarrow> fault + row list" where
  "decode_loop mem cur chunk_end =
     (if cur < chunk_end then
        (case consume_record mem cur of
           Inl e \<Rightarrow> Inl e
         | Inr (cur', city, product, price) \<Rightarrow>
             (case decode_loop mem cur' chunk_end of
                Inl e \<Rightarrow> Inl e
              | Inr rows \<Rightarrow> Inr ((city, product, price) # rows)))
      else Inr [])"
  by pat_completeness auto
termination
  by (relation "measure (\<lambda>(mem, cur, chunk_end). chunk_end - cur)")
     (auto dest!: consume_record_forward)

declare decode_loop.simps [simp del]

definition chunk_rows :: "string \<Rightarrow> nat \<Rightarrow> nat \<Rightarrow> fault + row list" where
  "chunk_rows mem start chunk_end =
     (if start < length mem then
        (case (if mem ! start \<noteq> newline then rawmemchr mem start newline else Inr start) of
           Inl e \<Rightarrow> Inl e
         | Inr start1 \<Rightarrow> decode_loop mem (start1 + 1) chunk_end)
      else Inl SegFault)"

text \<open>The mapping of the round-trip input with pages of 64 bytes, and its four records.\<close>

definition roundtrip_mem :: string where
  "roundtrip_mem = roundtrip @ replicate 9 (CHR 0x00)"

definition roundtrip_rows :: "row list" where
  "roundtrip_rows = [(''A'', ''X'', 150), (''A'', ''Y'', 200), (''B'', ''X'', 100), (''B'', ''X'', 50)]"

text \<open>The aggregate of the four records of the round-trip input, and its report.\<close>

definition roundtrip_report :: report where
  "roundtrip_report =
     [(''B'', 150), (''X'', 50), (''Y'', 4000000000000000000), ([], 0), ([], 0), ([], 0)]"

definition roundtrip_result :: Result where
  "roundtrip_result =
     \<lparr>city_cost = (\<lambda>_. 0)(0 := 350, 1 := 150),
      product_cost = (\<lambda>_. sentinel)((0, 0) := 150, (0, 1) := 200, (1, 0) := 50),
      product_id = [(''X'', 0), (''Y'', 1)],
      city_id = [(''A'', 0), (''B'', 1)]\<rparr>"



text \<open>Rows with a total of 6000000000000000000 hundredths for their only city, above
  the initial value of \<^verbatim>\<open>min_city_cost\<close>, and their aggregate.\<close>

definition costly_rows :: "row list" where
  "costly_rows = [(''A'', ''X'', 3000000000000000000), (''A'', ''X'', 3000000000000000000)]"

definition costly_result :: Result where
  "costly_result =
     \<lparr>city_cost = (\<lambda>_. 0)(0 := 6000000000000000000),
      product_cost = (\<lambda>_. sentinel)((0, 0) := 3000000000000000000),
      product_id = [(''X'', 0)],
      city_id = [(''A'', 0)]\<rparr>"

text \<open>
  Rows with 103 products, one more than \<^verbatim>\<open>NUM_CITIES\<close>: city A sells each of the
  103 products at 1.00, and city B sells the first of them, a0, at 5.00.
\<close>

definition overflow_products :: "string list" where
  "overflow_products =
     [''a0'', ''a1'', ''a2'', ''a3'', ''b0'', ''b1'', ''b2'', ''b3'', ''c0'', ''c1'',
      ''c2'', ''c3'', ''d0'', ''d1'', ''d2'', ''d3'', ''e0'', ''e1'', ''e2'', ''e3'',
      ''f0'', ''f1'', ''f2'', ''f3'', ''g0'', ''g1'', ''g2'', ''g3'', ''h0'', ''h1'',
      ''h2'', ''h3'', ''i0'', ''i1'', ''i2'', ''i3'', ''j0'', ''j1'', ''j2'', ''j3'',
      ''k0'', ''k1'', ''k2'', ''k3'', ''l0'', ''l1'', ''l2'', ''l3'', ''m0'', ''m1'',
      ''m2'', ''m3'', ''n0'', ''n1'', ''n2'', ''n3'', ''o0'', ''o1'', ''o2'', ''o3'',
      ''p0'', ''p1'', ''p2'', ''p3'', ''q0'', ''q1'', ''q2'', ''q3'', ''r0'', ''r1'',
      ''r2'', ''r3'', ''s0'', ''s1'', ''s2'', ''s3'', ''t0'', ''t1'', ''t2'', ''t3'',
      ''u0'', ''u1'', ''u2'', ''u3'', ''v0'', ''v1'', ''v2'', ''v3'', ''w0'', ''w1'',
      ''w2'', ''w3'', ''x0'', ''x1'', ''x2'', ''x3'', ''y0'', ''y1'', ''y2'', ''y3'',
      ''z0'', ''z1'', ''z2'']"

definition overflow_rows_A :: "row list" where
  "overflow_rows_A = map (\<lambda>p. (''A'', p, 100)) overflow_products"

definition overflow_rows_B :: "row list" where
  "overflow_rows_B = [(''B'', ''a0'', 500)]"

text \<open>The offsets at which the loop of \<open>process_chunk\<close> starts to decode a record:
  \<open>chunk_rows\<close> again, collecting the cursor instead of the record.\<close>

function starts_loop :: "string \<Rightarrow> nat \<Rightarrow> nat \<Rightarrow> fault + nat list" where
  "starts_loop mem cur chunk_end =
     (if cur < chunk_end then
        (case consume_record mem cur of
           Inl e \<Rightarrow> Inl e
         | Inr (cur', city, product, price) \<Rightarrow>
             (case starts_loop mem cur' chunk_end of
                Inl e \<Rightarrow> Inl e
              | Inr ps \<Rightarrow> Inr (cur # ps)))
      else Inr [])"
  by pat_completeness auto
termination
  by (relation "measure (\<lambda>(mem, cur, chunk_end). chunk_end - cur)")
     (auto dest!: consume_record_forward)

declare starts_loop.simps [simp del]

definition chunk_starts :: "string \<Rightarrow> nat \<Rightarrow> nat \<Rightarrow> fault + nat list" where
  "chunk_starts mem start chunk_end =
     (if start < length mem then
        (case (if mem ! start \<noteq> newline then rawmemchr mem start newline else Inr start) of
           Inl e \<Rightarrow> Inl e
         | Inr start1 \<Rightarrow> starts_loop mem (start1 + 1) chunk_end)
      else Inl SegFault)"

text \<open>For the chunk boundaries: \<open>n\<close> is the first newline at or behind \<open>s\<close>, the
  byte to which a chunk that starts at \<open>s\<close> realigns.\<close>

definition first_newline :: "string \<Rightarrow> nat \<Rightarrow> nat \<Rightarrow> bool" where
  "first_newline mem s n =
     (n < length mem \<and> mem ! n = newline \<and> s \<le> n \<and> (\<forall>i. s \<le> i \<and> i < n \<longrightarrow> mem ! i \<noteq> newline))"

text \<open>A decoded record is well-formed when its last byte is a newline and none of its
  other bytes is.\<close>

definition one_line :: "string \<Rightarrow> nat \<Rightarrow> bool" where
  "one_line mem p =
     (case consume_record mem p of
        Inl e \<Rightarrow> False
      | Inr (p', c, pr, v) \<Rightarrow>
          mem ! (p' - 1) = newline \<and> (\<forall>i. p \<le> i \<and> i < p' - 1 \<longrightarrow> mem ! i \<noteq> newline))"

text \<open>The record that the decoder reads at the offset \<open>p\<close>.\<close>

definition row_at :: "string \<Rightarrow> nat \<Rightarrow> row" where
  "row_at mem p =
     (case consume_record mem p of
        Inl e \<Rightarrow> ([], [], 0)
      | Inr (p', c, pr, v) \<Rightarrow> (c, pr, v))"

section \<open>The price decoder on a well-formed field\<close>

lemma accumulate_decimal_aux:
  "\<forall>c\<in>set ds. is_digit c \<Longrightarrow>
   foldl (\<lambda>a c. a * 10 + of_nat (of_char c) - 48) (of_nat n :: longlong) ds
     = of_nat (foldl (\<lambda>n c. 10 * n + (of_char c - 48)) n ds)"
proof (induction ds arbitrary: n)
  case Nil
  then show ?case by simp
next
  case (Cons d ds)
  let ?f = "\<lambda>(a::longlong) c. a * 10 + of_nat (of_char c) - 48"
  from Cons.prems have d: "48 \<le> (of_char d :: nat)" by (simp add: is_digit_def)
  have eq: "(of_nat n :: longlong) * 10 + of_nat (of_char d) - 48 = of_nat (10 * n + (of_char d - 48))"
    using d by (simp add: of_nat_diff)
  have "foldl ?f (of_nat n) (d # ds) = foldl ?f (of_nat n * 10 + of_nat (of_char d) - 48) ds"
    by simp
  also have "\<dots> = foldl ?f (of_nat (10 * n + (of_char d - 48))) ds"
    by (simp only: eq)
  also have "\<dots> = of_nat (foldl (\<lambda>n c. 10 * n + (of_char c - 48)) (10 * n + (of_char d - 48)) ds)"
    using Cons.prems by (intro Cons.IH) simp
  finally show ?case by simp
qed

lemma accumulate_decimal:
  "\<forall>c\<in>set ds. is_digit c \<Longrightarrow> accumulate 0 ds = of_nat (decimal ds)"
  using accumulate_decimal_aux [of ds 0] by (simp add: accumulate_def decimal_def)

lemma accumulate_append: "accumulate a (xs @ ys) = accumulate (accumulate a xs) ys"
  by (simp add: accumulate_def)

lemma integral_part_digits:
  "\<forall>c\<in>set ds. is_digit c \<Longrightarrow> \<not> is_digit t \<Longrightarrow>
   integral_part (pre @ ds @ t # rest) (length pre) a
     = Inr (length pre + length ds, accumulate a ds, t)"
proof (induction ds arbitrary: pre a)
  case Nil
  then show ?case
    by (subst integral_part.simps) (simp add: accumulate_def)
next
  case (Cons d ds)
  have "integral_part (pre @ (d # ds) @ t # rest) (length pre) a
      = integral_part ((pre @ [d]) @ ds @ t # rest) (length (pre @ [d]))
          (a * 10 + of_nat (of_char d) - 48)"
    using Cons.prems by (subst integral_part.simps) simp
  also have "\<dots> = Inr (length (pre @ [d]) + length ds,
      accumulate (a * 10 + of_nat (of_char d) - 48) ds, t)"
    using Cons.prems by (intro Cons.IH) simp_all
  finally show ?case by (simp add: accumulate_def)
qed

lemma fractional_part_digits:
  "\<forall>c\<in>set ds. is_digit c \<Longrightarrow> \<not> is_digit t \<Longrightarrow>
   fractional_part (pre @ ds @ t # rest) (length pre) a n
     = Inr (length pre + length ds, accumulate a ds, n + int (length ds))"
proof (induction ds arbitrary: pre a n)
  case Nil
  then show ?case
    by (subst fractional_part.simps) (simp add: accumulate_def)
next
  case (Cons d ds)
  have "fractional_part (pre @ (d # ds) @ t # rest) (length pre) a n
      = fractional_part ((pre @ [d]) @ ds @ t # rest) (length (pre @ [d]))
          (a * 10 + of_nat (of_char d) - 48) (n + 1)"
    using Cons.prems by (subst fractional_part.simps) simp
  also have "\<dots> = Inr (length (pre @ [d]) + length ds,
      accumulate (a * 10 + of_nat (of_char d) - 48) ds, n + 1 + int (length ds))"
    using Cons.prems by (intro Cons.IH) simp_all
  finally show ?case by (simp add: accumulate_def)
qed

lemma not_digit_dot: "\<not> is_digit (CHR ''.'')"
  by (simp add: is_digit_def)

text \<open>A field with a fractional part: digits, a dot, digits, a terminator \<open>t\<close> and the
  byte \<open>u\<close> behind the terminator, which the decoder reads as well.\<close>

lemma consume_float_fraction:
  assumes ip: "\<forall>c\<in>set ip. is_digit c" and fp: "\<forall>c\<in>set fp. is_digit c"
    and t: "\<not> is_digit t"
  shows "consume_float_as_long (pre @ ip @ CHR ''.'' # fp @ t # u # rest) (length pre)
     = Inr (length pre + length ip + length fp + 2 + (if u = newline then 1 else 0),
            if length fp = 1 then accumulate 0 (ip @ fp) * 10 else accumulate 0 (ip @ fp))"
proof -
  let ?mem = "pre @ ip @ CHR ''.'' # fp @ t # u # rest"
  have 1: "integral_part ?mem (length pre) 0
      = Inr (length pre + length ip, accumulate 0 ip, CHR ''.'')"
    using integral_part_digits [OF ip not_digit_dot] by simp
  have "fractional_part ((pre @ ip @ [CHR ''.'']) @ fp @ t # (u # rest))
          (length (pre @ ip @ [CHR ''.''])) (accumulate 0 ip) 0
     = Inr (length (pre @ ip @ [CHR ''.'']) + length fp,
            accumulate (accumulate 0 ip) fp, 0 + int (length fp))"
    by (rule fractional_part_digits [OF fp t])
  then have 2: "fractional_part ?mem (length pre + length ip + 1) (accumulate 0 ip) 0
     = Inr (length pre + length ip + 1 + length fp, accumulate 0 (ip @ fp), int (length fp))"
    by (simp add: accumulate_append)
  have 3: "?mem ! (length pre + length ip + 1 + length fp + 1) = u"
    by (simp add: nth_append)
  note 2 [simplified, simp] and 3 [simplified, simp]
  show ?thesis
    unfolding consume_float_as_long_def 1
    by (simp add: Let_def)
qed

lemma consume_float_no_fraction:
  assumes ip: "\<forall>c\<in>set ip. is_digit c" and t: "\<not> is_digit t" "t \<noteq> CHR ''.''"
  shows "consume_float_as_long (pre @ ip @ t # rest) (length pre)
     = Inr (length pre + length ip + 1, accumulate 0 ip)"
  unfolding consume_float_as_long_def
  using integral_part_digits [OF ip t(1), of pre rest 0] t(2) by simp

text \<open>
  Claim C6. A price field \<open>digits.d\<close> with exactly one fractional digit is decoded as
  the decimal reading of all its digits times 10, and a field with exactly two
  fractional digits as the decimal reading of all its digits, unscaled: \<open>3.5\<close> gives
  350 hundredths and \<open>1.50\<close> gives 150. The field stands anywhere in the mapped
  memory (behind \<open>pre\<close>), ends with a byte \<open>t\<close> that is no digit, and that byte is
  followed by one more readable byte \<open>u\<close>; the cursor stops behind \<open>t\<close>, or behind
  \<open>u\<close> when \<open>u\<close> is a newline.
\<close>

theorem consume_float_as_long_fraction:
  assumes "\<forall>c\<in>set ip. is_digit c" and "is_digit d1" and "is_digit d2" and "\<not> is_digit t"
  shows "consume_float_as_long (pre @ ip @ CHR ''.'' # d1 # t # u # rest) (length pre)
           = Inr (length pre + length ip + 3 + (if u = newline then 1 else 0),
                  of_nat (decimal (ip @ [d1])) * 10)
       \<and> consume_float_as_long (pre @ ip @ CHR ''.'' # d1 # d2 # t # u # rest) (length pre)
           = Inr (length pre + length ip + 4 + (if u = newline then 1 else 0),
                  of_nat (decimal (ip @ [d1, d2])))"
proof -
  have one: "\<forall>c\<in>set [d1]. is_digit c" and two: "\<forall>c\<in>set [d1, d2]. is_digit c"
    using assms by simp_all
  have all1: "\<forall>c\<in>set (ip @ [d1]). is_digit c" and all2: "\<forall>c\<in>set (ip @ [d1, d2]). is_digit c"
    using assms by auto
  show ?thesis
    using consume_float_fraction [OF assms(1) one assms(4), of pre u rest]
      consume_float_fraction [OF assms(1) two assms(4), of pre u rest]
      accumulate_decimal [OF all1] accumulate_decimal [OF all2]
    by simp
qed

theorem consume_float_as_long_fraction_witness:
  "is_digit CHR ''3'' \<and> is_digit CHR ''5'' \<and> is_digit CHR ''1'' \<and> is_digit CHR ''0''
   \<and> \<not> is_digit newline
   \<and> consume_float_as_long ''3.5\<newline>B,X,1.50\<newline>'' 0 = Inr (4, 350)
   \<and> consume_float_as_long ''3.50\<newline>B,X,1.50\<newline>'' 0 = Inr (5, 350)
   \<and> consume_float_as_long ''A,X,1.5\<newline>\<newline>'' 4 = Inr (9, 150)
   \<and> consume_float_as_long ''A,X,1.50\<newline>\<newline>'' 4 = Inr (10, 150)"
  using consume_float_as_long_fraction [of "''3''" "CHR ''5''" "CHR ''0''" newline "[]"
      "CHR ''B''" "'',X,1.50\<newline>''"]
    consume_float_as_long_fraction [of "''1''" "CHR ''5''" "CHR ''0''" newline "''A,X,''"
      newline "[]"]
  by (simp add: is_digit_def newline_def decimal_def eval_nat_numeral)

text \<open>
  Claim C10. A price field without a fractional part (digits ended by a byte \<open>t\<close> that
  is neither a digit nor a dot) is decoded as the decimal reading of its digits,
  unscaled, and the cursor stops right behind \<open>t\<close>, whatever follows: \<open>3\<close> gives 3
  hundredths, and behind \<open>3\<close>, carriage return, newline the cursor stands on the
  newline.
\<close>

theorem consume_float_as_long_no_fraction:
  assumes "\<forall>c\<in>set ip. is_digit c" and "\<not> is_digit t" and "t \<noteq> CHR ''.''"
  shows "consume_float_as_long (pre @ ip @ t # rest) (length pre)
           = Inr (length pre + length ip + 1, of_nat (decimal ip))"
  using consume_float_no_fraction [OF assms] accumulate_decimal [OF assms(1)] by simp

theorem consume_float_as_long_no_fraction_witness:
  "is_digit CHR ''3'' \<and> \<not> is_digit newline \<and> newline \<noteq> CHR ''.''
   \<and> \<not> is_digit CHR 0x0D \<and> CHR 0x0D \<noteq> CHR ''.''
   \<and> consume_float_as_long ''A,X,3\<newline>B,Y,4\<newline>'' 4 = Inr (6, 3)
   \<and> consume_float_as_long (''A,X,3'' @ [CHR 0x0D, newline] @ ''B,Y,4'') 4 = Inr (6, 3)
   \<and> (''A,X,3'' @ [CHR 0x0D, newline] @ ''B,Y,4'') ! 6 = newline"
  using consume_float_as_long_no_fraction [of "''3''" newline "''A,X,''" "''B,Y,4\<newline>''"]
    consume_float_as_long_no_fraction [of "''3''" "CHR 0x0D" "''A,X,''" "newline # ''B,Y,4''"]
  by (simp add: is_digit_def newline_def decimal_def eval_nat_numeral)

section \<open>The dictionary\<close>

lemma find_or_create_old:
  "map_of d k = Some v \<Longrightarrow> find_or_create d k = (v, d)"
  by (simp add: find_or_create_def)

lemma find_or_create_new:
  "k \<notin> fst ` set d \<Longrightarrow> find_or_create d k = (int (length d), d @ [(k, int (length d))])"
proof -
  assume "k \<notin> fst ` set d"
  then have "map_of d k = None" by (simp add: map_of_eq_None_iff)
  then show ?thesis by (simp add: find_or_create_def)
qed

lemma find_or_create_again:
  "find_or_create (snd (find_or_create d k)) k = find_or_create d k"
proof (cases "map_of d k")
  case None
  then have "map_of (d @ [(k, int (length d))]) k = Some (int (length d))"
    by (simp add: map_add_Some_iff)
  with None show ?thesis by (simp add: find_or_create_def)
next
  case (Some v)
  then show ?thesis by (simp add: find_or_create_def)
qed

lemma first_seen_snoc:
  "first_seen (ks @ [k]) = (if k \<in> set ks then first_seen ks else first_seen ks @ [k])"
  by (simp add: first_seen_def)

lemma set_first_seen: "set (first_seen ks) = set ks"
  by (simp add: first_seen_def)

lemma intern_all_snoc: "intern_all (ks @ [k]) = snd (find_or_create (intern_all ks) k)"
  by (simp add: intern_all_def)

lemma intern_all_keys_ids:
  "map fst (intern_all ks) = first_seen ks \<and>
   map snd (intern_all ks) = map int [0..<length (intern_all ks)]"
proof (induction ks rule: rev_induct)
  case Nil
  show ?case by (simp add: intern_all_def first_seen_def)
next
  case (snoc k ks)
  let ?d = "intern_all ks"
  from snoc have keys: "fst ` set ?d = set ks"
    using set_first_seen [of ks] by (metis set_map)
  show ?case
  proof (cases "k \<in> set ks")
    case True
    with keys obtain v where "map_of ?d k = Some v"
      by (metis map_of_eq_None_iff not_Some_eq)
    then have "intern_all (ks @ [k]) = ?d"
      by (simp add: intern_all_snoc find_or_create_old)
    with snoc True show ?thesis by (simp add: first_seen_snoc)
  next
    case False
    with keys have "intern_all (ks @ [k]) = ?d @ [(k, int (length ?d))]"
      by (simp add: intern_all_snoc find_or_create_new)
    with snoc False show ?thesis by (simp add: first_seen_snoc)
  qed
qed

text \<open>
  Claim C7. Let \<open>d\<close> be any table that calls of \<open>find_or_create\<close> build from the empty
  table (the program changes a table in no other way), and \<open>k\<close> any key. Interning
  \<open>k\<close> twice returns the same identifier both times, and the second call leaves the
  table as it is. A key seen before keeps its identifier and the table; a new key
  gets the size of the table as identifier and is added at the end. The
  identifiers of the table are \<open>0, 1, ..., size - 1\<close> in this order, and its keys
  are the keys interned so far in the order of their first occurrence.
\<close>

theorem find_or_create_idempotent_contiguous:
  "(let d = intern_all ks;
        (i, d1) = find_or_create d k;
        (j, d2) = find_or_create d1 k
    in j = i \<and> d2 = d1 \<and>
       (if k \<in> set ks then d1 = d \<and> map_of d k = Some i
        else i = int (length d) \<and> d1 = d @ [(k, i)]) \<and>
       map snd d1 = map int [0..<length d1] \<and>
       map fst d1 = first_seen (ks @ [k]))"
proof -
  let ?d = "intern_all ks"
  obtain i d1 where 1: "find_or_create ?d k = (i, d1)" by (cases "find_or_create ?d k")
  have 2: "find_or_create d1 k = (i, d1)"
    using find_or_create_again [of ?d k] 1 by simp
  have d1: "d1 = intern_all (ks @ [k])" by (simp add: intern_all_snoc 1)
  have keys: "fst ` set ?d = set ks"
    using intern_all_keys_ids [of ks] set_first_seen [of ks] by (metis set_map)
  have 3: "if k \<in> set ks then d1 = ?d \<and> map_of ?d k = Some i
        else i = int (length ?d) \<and> d1 = ?d @ [(k, i)]"
  proof (cases "k \<in> set ks")
    case True
    with keys obtain v where "map_of ?d k = Some v"
      by (metis map_of_eq_None_iff not_Some_eq)
    with 1 True show ?thesis by (simp add: find_or_create_old)
  next
    case False
    with keys 1 show ?thesis by (auto simp: find_or_create_new)
  qed
  show ?thesis
    using 3 intern_all_keys_ids [of "ks @ [k]"] by (simp add: 1 2 d1 [symmetric])
qed

section \<open>Runs on small and on empty inputs\<close>

lemma replicate_num: "replicate (numeral k) x = x # replicate (pred_numeral k) x"
  by (simp add: numeral_eq_Suc)

lemma chunk_jobs_small: "fsize < block_size \<Longrightarrow> chunk_jobs fsize (fsize div block_size) 0 = []"
  by (subst chunk_jobs.simps) simp

lemma chunk_jobs_zero: "chunk_jobs fsize 0 i = []"
  by (subst chunk_jobs.simps) simp

lemma merge_result_init: "merge_result Result_init mr = Inr mr"
  by (simp add: merge_result_def Result_init_def)

lemma for_each_merge_init: "for_each merge_result (replicate n Result_init) mr = Inr mr"
  by (induction n) (simp_all add: merge_result_init)

lemma merge_replicate_init: "merge (replicate n Result_init) = Inr Result_init"
  by (simp add: merge_def for_each_merge_init)

lemma sint_sentinel: "sint sentinel = 4000000000000000000"
  by (simp add: sentinel_def)

lemma ans_init: "ans Result_init = Inr no_data_report"
  by (simp add: ans_def Result_init_def resize5_def no_data_report_def)

lemma rawmemchr_first:
  "c \<notin> set h \<Longrightarrow> s \<le> length h \<Longrightarrow> rawmemchr (h @ c # rest) s c = Inr (length h)"
proof (induction "length h - s" arbitrary: s)
  case 0
  then have "s = length h" by simp
  then show ?case by (subst rawmemchr.simps) simp
next
  case (Suc n)
  then have s: "s < length h" by simp
  with Suc.prems have "(h @ c # rest) ! s \<noteq> c" by (auto simp: nth_append)
  moreover have "rawmemchr (h @ c # rest) (s + 1) c = Inr (length h)"
    using Suc s by (intro Suc.hyps(1)) simp_all
  ultimately show ?case using s by (subst rawmemchr.simps) simp
qed

lemma process_chunk_header_only:
  assumes "newline \<notin> set h" and "s \<le> length h" and "e \<le> length h + 1"
  shows "process_chunk (h @ newline # pad) r s e = Inr r"
proof -
  let ?mem = "h @ newline # pad"
  have loop: "process_chunk_loop ?mem r (length h + 1) e = Inr r"
    using assms(3) by (subst process_chunk_loop.simps) simp
  show ?thesis
  proof (cases "?mem ! s = newline")
    case True
    with assms(1,2) have "s = length h"
      by (cases "s < length h") (auto simp: nth_append dest: nth_mem)
    with True loop show ?thesis by (simp add: process_chunk_def)
  next
    case False
    with assms(2) loop rawmemchr_first [OF assms(1,2)] show ?thesis
      by (simp add: process_chunk_def)
  qed
qed

lemma run_jobs_header_only:
  assumes "newline \<notin> set h" and "\<forall>(s, e)\<in>set jobs. s \<le> length h \<and> e \<le> length h + 1"
    and "results \<noteq> []"
  shows "run_jobs (h @ newline # pad) sched j jobs results = Inr results"
  using assms(2)
proof (induction jobs arbitrary: j)
  case Nil
  show ?case by simp
next
  case (Cons job jobs)
  obtain s e where job: "job = (s, e)" by (cases job)
  with Cons.prems have "process_chunk (h @ newline # pad) (results ! (sched j mod length results)) s e
      = Inr (results ! (sched j mod length results))"
    by (intro process_chunk_header_only assms(1)) simp_all
  with Cons job assms(3) show ?case by (simp add: Let_def)
qed

lemma chunk_jobs_bounds:
  "(s, e) \<in> set (chunk_jobs fsize cnt i) \<Longrightarrow> cnt * block_size \<le> fsize \<Longrightarrow> s < e \<and> e \<le> fsize"
proof (induction fsize cnt i rule: chunk_jobs.induct)
  case (1 fsize cnt i)
  show ?case
  proof (cases "i < cnt")
    case False
    with "1.prems" show ?thesis by (subst (asm) chunk_jobs.simps) simp
  next
    case True
    let ?ce = "if i + 1 = cnt then fsize else (i + 1) * block_size"
    show ?thesis
    proof (cases "i * block_size \<ge> ?ce")
      case True
      with \<open>i < cnt\<close> "1.prems"(1) show ?thesis
        by (subst (asm) chunk_jobs.simps) (simp add: Let_def)
    next
      case False
      with \<open>i < cnt\<close> "1.prems"(1)
      have mem: "(s, e) = (i * block_size, ?ce) \<or> (s, e) \<in> set (chunk_jobs fsize cnt (i + 1))"
        by (subst (asm) chunk_jobs.simps) (simp add: Let_def)
      have "(i + 1) * block_size \<le> cnt * block_size"
        using \<open>i < cnt\<close> by (intro mult_le_mono1) simp
      with "1.prems"(2) have ce: "?ce \<le> fsize" by simp
      from mem show ?thesis
      proof
        assume "(s, e) = (i * block_size, ?ce)"
        with False ce show ?thesis by (simp split: if_splits)
      next
        assume "(s, e) \<in> set (chunk_jobs fsize cnt (i + 1))"
        with "1.IH" [OF \<open>i < cnt\<close> refl refl] False "1.prems"(2) show ?thesis by simp
      qed
    qed
  qed
qed

lemma main_header_only_aux:
  assumes "newline \<notin> set h" and "0 < num_threads"
  shows "main page_size desc num_threads sched (Some (h @ [newline])) = Inr no_data_report"
proof -
  let ?L = "length h + 1"
  let ?pad = "replicate ((page_size - ?L mod page_size) mod page_size) (CHR 0x00)"
  let ?mp = "\<lparr>fd = desc, file_size = ?L, file_data = h @ newline # ?pad\<rparr>"
  have mp: "map_input page_size desc (Some (h @ [newline])) = Inr ?mp"
    by (simp add: map_input_def)
  have "\<forall>(s, e)\<in>set (chunk_jobs ?L (?L div block_size) 0). s \<le> length h \<and> e \<le> length h + 1"
    using chunk_jobs_bounds [of _ _ ?L "?L div block_size" 0] by fastforce
  then have "process_concurrently num_threads sched ?mp = Inr (replicate num_threads Result_init)"
    using assms by (simp add: process_concurrently_def run_jobs_header_only)
  then show ?thesis
    by (simp add: main_def mp merge_replicate_init ans_init)
qed

lemma main_small:
  assumes "file \<noteq> []" "length file < block_size"
  shows "main page_size desc num_threads sched (Some file) = Inr no_data_report"
  using assms
  by (simp add: main_def map_input_def process_concurrently_def chunk_jobs_zero
      merge_replicate_init ans_init)

lemma process_concurrently_small:
  assumes "file_size mp < block_size"
  shows "process_concurrently num_threads sched mp = Inr (replicate num_threads Result_init)"
  using assms by (simp add: process_concurrently_def chunk_jobs_zero)

lemma block_size_value: "block_size = 104857600"
  by (simp add: block_size_def)

text \<open>
  Claim C2 (the code does not do what the claim says). For the round-trip input, 55
  bytes long, \<^verbatim>\<open>chunks_count = file_size / block_size\<close> is 0: the loop of
  \<open>process_concurrently\<close> queues no job at all, every slot of the pool keeps its
  initial \<^verbatim>\<open>Result\<close>, and the run prints the report of an empty aggregate. No record
  of the input is processed.
\<close>

theorem process_concurrently_small_file_no_chunk:
  "length roundtrip = 55
   \<and> chunk_jobs (length roundtrip) (length roundtrip div block_size) 0 = []
   \<and> process_concurrently 8 (\<lambda>j. j)
        \<lparr>fd = 3, file_size = length roundtrip, file_data = roundtrip @ replicate 9 (CHR 0x00)\<rparr>
      = Inr (replicate 8 Result_init)
   \<and> main 64 3 8 (\<lambda>j. j) (Some roundtrip)
      = Inr [([], 4000000000000000000), ([], 0), ([], 0), ([], 0), ([], 0), ([], 0)]"
proof -
  have len: "length roundtrip = 55" by (simp add: roundtrip_def)
  then have small: "length roundtrip < block_size" and ne: "roundtrip \<noteq> []"
    by (auto simp: block_size_value)
  have "main 64 3 8 (\<lambda>j. j) (Some roundtrip) = Inr no_data_report"
    by (rule main_small [OF ne small])
  moreover have "chunk_jobs (length roundtrip) (length roundtrip div block_size) 0 = []"
    by (rule chunk_jobs_small [OF small])
  moreover have "process_concurrently 8 (\<lambda>j. j)
        \<lparr>fd = 3, file_size = length roundtrip, file_data = roundtrip @ replicate 9 (CHR 0x00)\<rparr>
      = Inr (replicate 8 Result_init)"
    using small by (intro process_concurrently_small) simp
  ultimately show ?thesis
    using len by (simp add: no_data_report_def sint_sentinel replicate_num)
qed

text \<open>
  Claim C4, as stated, fails: for the input that holds the header line only, the
  run returns normally, but it prints six lines, the first with an empty city name
  and the total 4000000000000000000, the others with an empty product name and 0.
\<close>

theorem main_header_only_counterexample:
  "main 4096 3 8 (\<lambda>j. j) (Some ''city,product,price\<newline>'')
     = Inr [([], 4000000000000000000), ([], 0), ([], 0), ([], 0), ([], 0), ([], 0)]"
proof -
  have "main 4096 3 8 (\<lambda>j. j) (Some ''city,product,price\<newline>'') = Inr no_data_report"
    by (rule main_small) (simp_all add: block_size_value)
  then show ?thesis
    by (simp add: no_data_report_def sint_sentinel replicate_num)
qed

text \<open>
  Claim C4, amended. For every input that consists of one header line (any bytes
  but a newline, then a newline), every page size, every number of threads above
  0 and every assignment of jobs to threads, the run returns normally, with no
  read outside the mapping and no index outside the arrays, and prints the report
  of the empty aggregate: a city line with the empty name and the total
  4000000000000000000 hundredths, and five product lines with the empty name and
  the price 0.
\<close>

theorem main_header_only:
  assumes "newline \<notin> set h" and "0 < num_threads"
  shows "main page_size desc num_threads sched (Some (h @ [newline]))
           = Inr (([], 4000000000000000000) # replicate 5 ([], 0))"
  using main_header_only_aux [OF assms] by (simp add: no_data_report_def sint_sentinel)

theorem main_header_only_witness:
  "newline \<notin> set ''city,product,price'' \<and> (0::nat) < 8
   \<and> main 4096 3 8 (\<lambda>j. j) (Some (''city,product,price'' @ [newline]))
       = Inr (([], 4000000000000000000) # replicate 5 ([], 0))"
  using main_header_only [of "''city,product,price''" 8 4096 3 "\<lambda>j. j"]
  by (simp add: newline_def)

section \<open>Accesses inside the arrays\<close>

text \<open>An access with indices below \<^verbatim>\<open>NUM_CITIES\<close> is an access to the cell of its own
  array at these indices.\<close>

lemma in_arrays_city: "in_bounds i \<Longrightarrow> in_arrays (city_cost_at i)"
  by (simp add: in_bounds_def in_arrays_def city_cost_at_def NUM_CITIES_def)

lemma in_arrays_product: "in_bounds i \<Longrightarrow> in_bounds j \<Longrightarrow> in_arrays (product_cost_at i j)"
  by (simp add: in_bounds_def in_arrays_def product_cost_at_def NUM_CITIES_def)

lemma product_cost_at_decode:
  assumes "in_bounds i" and "in_bounds j"
  shows "\<not> product_cost_at i j < NUM_CITIES"
    and "(product_cost_at i j - NUM_CITIES) div NUM_CITIES = i"
    and "(product_cost_at i j - NUM_CITIES) mod NUM_CITIES = j"
    and "product_cost_at i j mod NUM_CITIES = j"
proof -
  from assms have i: "0 \<le> i" and j: "0 \<le> j" "j < NUM_CITIES"
    by (simp_all add: in_bounds_def)
  have a: "product_cost_at i j = j + NUM_CITIES * (i + 1)"
    by (simp add: product_cost_at_def algebra_simps)
  have b: "product_cost_at i j - NUM_CITIES = j + NUM_CITIES * i"
    by (simp add: product_cost_at_def)
  have pos: "0 < NUM_CITIES" by (simp add: NUM_CITIES_def)
  from i j pos have "NUM_CITIES \<le> j + NUM_CITIES * (i + 1)"
    by (simp add: algebra_simps)
  then show "\<not> product_cost_at i j < NUM_CITIES" by (simp add: a)
  from j pos show "(product_cost_at i j - NUM_CITIES) div NUM_CITIES = i"
    unfolding b by simp
  from j show "(product_cost_at i j - NUM_CITIES) mod NUM_CITIES = j"
    unfolding b by simp
  from j show "product_cost_at i j mod NUM_CITIES = j"
    unfolding a by simp
qed

lemma load_city: "in_bounds i \<Longrightarrow> load r (city_cost_at i) = city_cost r i"
  by (simp add: load_def city_cost_at_def in_bounds_def)

lemma load_product:
  "in_bounds i \<Longrightarrow> in_bounds j \<Longrightarrow> load r (product_cost_at i j) = product_cost r (i, j)"
  by (simp add: load_def product_cost_at_decode)

lemma store_city:
  "in_bounds i \<Longrightarrow> store r (city_cost_at i) v = r\<lparr>city_cost := (city_cost r)(i := v)\<rparr>"
  by (simp add: store_def city_cost_at_def in_bounds_def)

lemma store_product:
  "in_bounds i \<Longrightarrow> in_bounds j
   \<Longrightarrow> store r (product_cost_at i j) v = r\<lparr>product_cost := (product_cost r)((i, j) := v)\<rparr>"
  by (simp add: store_def product_cost_at_decode)

lemma process_record_in_bounds:
  assumes "find_or_create (city_id r) c = (i, d1)" and "find_or_create (product_id r) p = (j, d2)"
    and "in_bounds i" and "in_bounds j"
  shows "process_record r c p v
     = Inr (r\<lparr>city_id := d1, product_id := d2,
              product_cost := (product_cost r)((i, j) := smin (product_cost r (i, j)) v),
              city_cost := (city_cost r)(i := city_cost r i + v)\<rparr>)"
  using assms
  by (simp add: process_record_def Let_def in_arrays_city in_arrays_product load_city
      load_product store_city store_product)

lemma merge_product_in_bounds:
  assumes "find_or_create (product_id mr) pn = (npid, pmap)"
    and "in_bounds ncid" and "in_bounds npid" and "in_bounds ci" and "in_bounds pj"
  shows "merge_product r ci ncid (pn, pj) mr
     = Inr (mr\<lparr>product_id := pmap,
               product_cost := (product_cost mr)
                 ((ncid, npid) := smin (product_cost mr (ncid, npid)) (product_cost r (ci, pj)))\<rparr>)"
  using assms
  by (simp add: merge_product_def Let_def in_arrays_product load_product store_product)

lemma merge_city_in_bounds:
  assumes "find_or_create (city_id mr) cn = (ncid, cmap)" and "in_bounds ncid" and "in_bounds ci"
  shows "merge_city r (cn, ci) mr
     = for_each (merge_product r ci ncid) (product_id r)
         (mr\<lparr>city_id := cmap,
             city_cost := (city_cost mr)(ncid := city_cost mr ncid + city_cost r ci)\<rparr>)"
  using assms
  by (simp add: merge_city_def Let_def in_arrays_city load_city store_city)

lemma ans_city_in_bounds:
  assumes "in_bounds k"
  shows "ans_city r (n, k) (m, w, i)
     = (if sint m > sint (city_cost r k) then Inr (city_cost r k, n, k)
        else if city_cost r k = m \<and> w > n then Inr (m, n, k)
        else Inr (m, w, i))"
  using assms by (simp add: ans_city_def Let_def in_arrays_city load_city)

lemma ans_product_in_bounds:
  assumes "in_bounds i" and "in_bounds j"
  shows "ans_product r i (p, j) acc = Inr (acc @ [(sint (product_cost r (i, j)), p)])"
  using assms by (simp add: ans_product_def in_arrays_product load_product)

text \<open>With \<^verbatim>\<open>city_id\<close> still \<open>- 1\<close>, the second loop of \<open>ans\<close> reads the cells of
  \<^verbatim>\<open>city_cost\<close>.\<close>

lemma ans_product_no_city:
  assumes "in_bounds j"
  shows "ans_product r (- 1) (p, j) acc = Inr (acc @ [(sint (city_cost r j), p)])"
  using assms
  by (simp add: ans_product_def in_arrays_def product_cost_at_def load_def in_bounds_def
      NUM_CITIES_def)

section \<open>Aggregates as tables from names to amounts\<close>

lemma dict_ok_Nil: "dict_ok []"
  by (simp add: dict_ok_def)

lemma dict_ok_range:
  assumes "dict_ok d" and "map_of d k = Some i"
  shows "0 \<le> i \<and> i < int (length d)"
proof -
  from assms(2) have "(k, i) \<in> set d" by (rule map_of_SomeD)
  then have "i \<in> snd ` set d" by force
  with assms(1) show ?thesis by (simp add: dict_ok_def)
qed

lemma dict_ok_entry:
  assumes "dict_ok d" and "(k, i) \<in> set d"
  shows "map_of d k = Some i"
  using assms by (simp add: dict_ok_def)

lemma dict_ok_inj:
  assumes "dict_ok d" and "map_of d k = Some i" and "map_of d k' = Some i"
  shows "k = k'"
proof -
  from assms(1) have "inj_on snd (set d)" by (simp add: dict_ok_def distinct_map)
  moreover have "(k, i) \<in> set d" "(k', i) \<in> set d"
    using assms(2,3) by (auto dest: map_of_SomeD)
  ultimately have "(k, i) = (k', i)" by (intro inj_onD [of snd "set d"]) simp_all
  then show ?thesis by simp
qed

lemma dict_ok_snoc:
  assumes "dict_ok d" and "k \<notin> fst ` set d"
  shows "dict_ok (d @ [(k, int (length d))])"
proof -
  from assms(1) have "int (length d) \<notin> snd ` set d" by (simp add: dict_ok_def)
  moreover have "insert (int (length d)) {i. 0 \<le> i \<and> i < int (length d)}
      = {i. 0 \<le> i \<and> i < int (length d) + 1}" by auto
  ultimately show ?thesis using assms by (simp add: dict_ok_def add.commute)
qed

lemma find_or_create_cases:
  obtains (old) i where "map_of d k = Some i" and "find_or_create d k = (i, d)"
  | (new) "map_of d k = None" and "k \<notin> fst ` set d"
      and "find_or_create d k = (int (length d), d @ [(k, int (length d))])"
proof (cases "map_of d k")
  case None
  then have "k \<notin> fst ` set d" by (simp add: map_of_eq_None_iff)
  with None show ?thesis by (intro new) (simp_all add: find_or_create_def)
next
  case (Some i)
  then show ?thesis by (intro old [of i]) (simp_all add: find_or_create_def)
qed

lemma map_of_snoc_new:
  "map_of d k = None \<Longrightarrow> map_of (d @ [(k, v)]) k' = (if k' = k then Some v else map_of d k')"
  by (auto simp: map_add_def split: option.splits)

text \<open>Interning a name changes neither a sum nor a minimum.\<close>

lemma intern_city:
  assumes "well_formed r" and "find_or_create (city_id r) c = (i, d)" and "in_bounds i"
  shows "well_formed (r\<lparr>city_id := d\<rparr>)" and "map_of d c = Some i"
    and "cities (r\<lparr>city_id := d\<rparr>) = insert c (cities r)"
    and "products (r\<lparr>city_id := d\<rparr>) = products r"
    and "csum (r\<lparr>city_id := d\<rparr>) c' = csum r c'"
    and "pmin (r\<lparr>city_id := d\<rparr>) c' p' = pmin r c' p'"
proof -
  have "well_formed (r\<lparr>city_id := d\<rparr>) \<and> map_of d c = Some i
    \<and> cities (r\<lparr>city_id := d\<rparr>) = insert c (cities r)
    \<and> csum (r\<lparr>city_id := d\<rparr>) c' = csum r c'
    \<and> pmin (r\<lparr>city_id := d\<rparr>) c' p' = pmin r c' p'"
  proof (cases rule: find_or_create_cases [of "city_id r" c])
    case (old i')
    with assms(2) have "d = city_id r" "i' = i" by simp_all
    with old assms(1) show ?thesis
      by (auto simp: cities_def dest: map_of_SomeD intro: rev_image_eqI)
  next
    case new
    with assms(2) have d: "d = city_id r @ [(c, i)]" and i: "i = int (length (city_id r))"
      by auto
    have m: "\<And>k. map_of d k = (if k = c then Some i else map_of (city_id r) k)"
      unfolding d using new(1) by (rule map_of_snoc_new)
    have 1: "well_formed (r\<lparr>city_id := d\<rparr>)"
      using assms(1,3) dict_ok_snoc [OF _ new(2)]
      by (simp add: well_formed_def d i in_bounds_def)
    have 2: "csum (r\<lparr>city_id := d\<rparr>) c' = csum r c'"
      using assms(1) new(1) by (auto simp: csum_def m i well_formed_def split: option.splits)
    have 3: "pmin (r\<lparr>city_id := d\<rparr>) c' p' = pmin r c' p'"
      using assms(1) new(1) by (auto simp: pmin_def m i well_formed_def split: option.splits)
    have 4: "cities (r\<lparr>city_id := d\<rparr>) = insert c (cities r)"
      by (simp add: cities_def d)
    show ?thesis using 1 2 3 4 by (simp add: m)
  qed
  then show "well_formed (r\<lparr>city_id := d\<rparr>)" and "map_of d c = Some i"
    and "cities (r\<lparr>city_id := d\<rparr>) = insert c (cities r)"
    and "csum (r\<lparr>city_id := d\<rparr>) c' = csum r c'"
    and "pmin (r\<lparr>city_id := d\<rparr>) c' p' = pmin r c' p'" by simp_all
  show "products (r\<lparr>city_id := d\<rparr>) = products r" by (simp add: products_def)
qed

lemma intern_product:
  assumes "well_formed r" and "find_or_create (product_id r) p = (j, d)" and "in_bounds j"
  shows "well_formed (r\<lparr>product_id := d\<rparr>)" and "map_of d p = Some j"
    and "products (r\<lparr>product_id := d\<rparr>) = insert p (products r)"
    and "cities (r\<lparr>product_id := d\<rparr>) = cities r"
    and "csum (r\<lparr>product_id := d\<rparr>) c' = csum r c'"
    and "pmin (r\<lparr>product_id := d\<rparr>) c' p' = pmin r c' p'"
proof -
  have "well_formed (r\<lparr>product_id := d\<rparr>) \<and> map_of d p = Some j
    \<and> products (r\<lparr>product_id := d\<rparr>) = insert p (products r)
    \<and> pmin (r\<lparr>product_id := d\<rparr>) c' p' = pmin r c' p'"
  proof (cases rule: find_or_create_cases [of "product_id r" p])
    case (old j')
    with assms(2) have "d = product_id r" "j' = j" by simp_all
    with old assms(1) show ?thesis
      by (auto simp: products_def dest: map_of_SomeD intro: rev_image_eqI)
  next
    case new
    with assms(2) have d: "d = product_id r @ [(p, j)]" and j: "j = int (length (product_id r))"
      by auto
    have m: "\<And>k. map_of d k = (if k = p then Some j else map_of (product_id r) k)"
      unfolding d using new(1) by (rule map_of_snoc_new)
    have 1: "well_formed (r\<lparr>product_id := d\<rparr>)"
      using assms(1,3) dict_ok_snoc [OF _ new(2)]
      by (simp add: well_formed_def d j in_bounds_def)
    have 3: "pmin (r\<lparr>product_id := d\<rparr>) c' p' = pmin r c' p'"
      using assms(1) new(1) by (auto simp: pmin_def m j well_formed_def split: option.splits)
    have 4: "products (r\<lparr>product_id := d\<rparr>) = insert p (products r)"
      by (simp add: products_def d)
    show ?thesis using 1 3 4 by (simp add: m)
  qed
  then show "well_formed (r\<lparr>product_id := d\<rparr>)" and "map_of d p = Some j"
    and "products (r\<lparr>product_id := d\<rparr>) = insert p (products r)"
    and "pmin (r\<lparr>product_id := d\<rparr>) c' p' = pmin r c' p'" by simp_all
  show "cities (r\<lparr>product_id := d\<rparr>) = cities r" by (simp add: cities_def)
  show "csum (r\<lparr>product_id := d\<rparr>) c' = csum r c'"
    by (simp add: csum_def split: option.splits)
qed

lemma sint_smin: "sint (smin a b) = min (sint a) (sint b)"
  by (simp add: smin_def min_def)

lemma add_to_city:
  fixes v :: longlong
  assumes "well_formed r" and "map_of (city_id r) c = Some i"
  defines "r' \<equiv> r\<lparr>city_cost := (city_cost r)(i := city_cost r i + v)\<rparr>"
  shows "well_formed r'" and "cities r' = cities r" and "products r' = products r"
    and "csum r' c' = (if c' = c then csum r c + v else csum r c')"
    and "pmin r' c' p' = pmin r c' p'"
proof -
  from assms(1,2) have i: "0 \<le> i \<and> i < int (length (city_id r))"
    by (intro dict_ok_range [of _ c]) (simp_all add: well_formed_def)
  with assms(1) show "well_formed r'" by (auto simp: well_formed_def r'_def)
  show "cities r' = cities r" "products r' = products r"
    by (simp_all add: cities_def products_def r'_def)
  show "pmin r' c' p' = pmin r c' p'"
    by (simp add: pmin_def r'_def split: option.splits)
  show "csum r' c' = (if c' = c then csum r c + v else csum r c')"
  proof -
    show ?thesis
    proof (cases "map_of (city_id r) c'")
      case None
      with assms(2) show ?thesis by (auto simp: csum_def r'_def)
    next
      case (Some i')
      have "i' = i \<Longrightarrow> c' = c"
        using dict_ok_inj [of "city_id r" c' i c] Some assms(1,2) by (simp add: well_formed_def)
      with Some assms(2) show ?thesis by (auto simp: csum_def r'_def)
    qed
  qed
qed

lemma min_into_cell:
  fixes v :: longlong
  assumes "well_formed r" and "map_of (city_id r) c = Some i" and "map_of (product_id r) p = Some j"
  defines "r' \<equiv> r\<lparr>product_cost := (product_cost r)((i, j) := smin (product_cost r (i, j)) v)\<rparr>"
  shows "well_formed r'" and "cities r' = cities r" and "products r' = products r"
    and "csum r' c' = csum r c'"
    and "pmin r' c' p' = (if c' = c \<and> p' = p then smin (pmin r c p) v else pmin r c' p')"
proof -
  from assms(1,2) have i: "0 \<le> i \<and> i < int (length (city_id r))"
    by (intro dict_ok_range [of _ c]) (simp_all add: well_formed_def)
  from assms(1,3) have j: "0 \<le> j \<and> j < int (length (product_id r))"
    by (intro dict_ok_range [of _ p]) (simp_all add: well_formed_def)
  have le: "sint (smin (product_cost r (i, j)) v) \<le> sint sentinel"
    using assms(1) by (simp add: sint_smin well_formed_def min.coboundedI1)
  with assms(1) i j show "well_formed r'" by (auto simp: well_formed_def r'_def)
  show "cities r' = cities r" "products r' = products r"
    by (simp_all add: cities_def products_def r'_def)
  show "csum r' c' = csum r c'"
    by (simp add: csum_def r'_def split: option.splits)
  show "pmin r' c' p' = (if c' = c \<and> p' = p then smin (pmin r c p) v else pmin r c' p')"
  proof -
    show ?thesis
    proof (cases "map_of (city_id r) c'")
      case None
      with assms(2) show ?thesis by (auto simp: pmin_def r'_def)
    next
      case ci: (Some i')
      show ?thesis
      proof (cases "map_of (product_id r) p'")
        case None
        with ci assms(3) show ?thesis by (auto simp: pmin_def r'_def)
      next
        case (Some j')
        have "i' = i \<Longrightarrow> c' = c"
          using dict_ok_inj [of "city_id r" c' i c] ci assms(1,2) by (simp add: well_formed_def)
        moreover have "j' = j \<Longrightarrow> p' = p"
          using dict_ok_inj [of "product_id r" p' j p] Some assms(1,3) by (simp add: well_formed_def)
        ultimately show ?thesis
          using ci Some assms(2,3) by (auto simp: pmin_def r'_def)
      qed
    qed
  qed
qed

lemma dict_ok_card: "dict_ok d \<Longrightarrow> card (fst ` set d) = length d"
  using distinct_card [of "map fst d"] by (simp add: dict_ok_def)

lemma find_or_create_in_bounds:
  assumes "dict_ok d" and "int (length d) \<le> NUM_CITIES"
    and "int (card (insert k (fst ` set d))) \<le> NUM_CITIES"
  shows "in_bounds (fst (find_or_create d k))"
proof (cases rule: find_or_create_cases [of d k])
  case (old i)
  with dict_ok_range [OF assms(1) old(1)] assms(2) show ?thesis by (simp add: in_bounds_def)
next
  case new
  with assms(3) dict_ok_card [OF assms(1)] show ?thesis by (simp add: in_bounds_def)
qed

text \<open>One record, as long as the tables stay within \<^verbatim>\<open>NUM_CITIES\<close> names.\<close>

lemma process_record_step:
  assumes "well_formed r" and "process_record r c p v = Inr r'"
    and "int (card (insert c (cities r))) \<le> NUM_CITIES"
    and "int (card (insert p (products r))) \<le> NUM_CITIES"
  shows "well_formed r'" and "cities r' = insert c (cities r)" and "products r' = insert p (products r)"
    and "csum r' c' = (if c' = c then csum r c + v else csum r c')"
    and "pmin r' c' p' = (if c' = c \<and> p' = p then smin (pmin r c p) v else pmin r c' p')"
proof -
  obtain i d1 where f1: "find_or_create (city_id r) c = (i, d1)"
    by (cases "find_or_create (city_id r) c")
  obtain j d2 where f2: "find_or_create (product_id r) p = (j, d2)"
    by (cases "find_or_create (product_id r) p")
  have "in_bounds (fst (find_or_create (city_id r) c))"
    using assms(1,3) by (intro find_or_create_in_bounds) (simp_all add: well_formed_def cities_def)
  moreover have "in_bounds (fst (find_or_create (product_id r) p))"
    using assms(1,4) by (intro find_or_create_in_bounds) (simp_all add: well_formed_def products_def)
  ultimately have b: "in_bounds i" "in_bounds j" by (simp_all add: f1 f2)
  define r1 where "r1 = r\<lparr>city_id := d1\<rparr>"
  define r2 where "r2 = r1\<lparr>product_id := d2\<rparr>"
  define r3 where "r3 = r2\<lparr>product_cost := (product_cost r2)((i, j) := smin (product_cost r2 (i, j)) v)\<rparr>"
  define r4 where "r4 = r3\<lparr>city_cost := (city_cost r3)(i := city_cost r3 i + v)\<rparr>"
  from assms(2) have r': "r' = r4"
    by (simp add: process_record_in_bounds [OF f1 f2 b] r4_def r3_def r2_def r1_def)
  note s1 = intern_city [OF assms(1) f1 b(1), folded r1_def]
  have f2': "find_or_create (product_id r1) p = (j, d2)" using f2 by (simp add: r1_def)
  note s2 = intern_product [OF s1(1) f2' b(2), folded r2_def]
  have c2: "map_of (city_id r2) c = Some i" using s1(2) by (simp add: r2_def r1_def)
  have p2: "map_of (product_id r2) p = Some j" using s2(2) by (simp add: r2_def)
  note s3 = min_into_cell [OF s2(1) c2 p2, of v, folded r3_def]
  have c3: "map_of (city_id r3) c = Some i" using c2 by (simp add: r3_def)
  note s4 = add_to_city [OF s3(1) c3, of v, folded r4_def]
  have e2: "\<And>c' p'. pmin r2 c' p' = pmin r c' p'" "\<And>c'. csum r2 c' = csum r c'"
      "cities r2 = insert c (cities r)" "products r2 = insert p (products r)"
    using s1 s2 unfolding r2_def r1_def by simp_all
  have e3: "\<And>c' p'. pmin r3 c' p'
        = (if c' = c \<and> p' = p then smin (pmin r2 c p) v else pmin r2 c' p')"
      "\<And>c'. csum r3 c' = csum r2 c'" "cities r3 = cities r2" "products r3 = products r2"
    using s3 unfolding r3_def by simp_all
  have e4: "\<And>c' p'. pmin r4 c' p' = pmin r3 c' p'"
      "\<And>c'. csum r4 c' = (if c' = c then csum r3 c + v else csum r3 c')"
      "cities r4 = cities r3" "products r4 = products r3" "well_formed r4"
    using s4 unfolding r4_def by simp_all
  show "well_formed r'" using e4 r' by simp
  show "cities r' = insert c (cities r)" by (simp add: r' e4 e3 e2)
  show "products r' = insert p (products r)" by (simp add: r' e4 e3 e2)
  show "csum r' c' = (if c' = c then csum r c + v else csum r c')" by (simp add: r' e4 e3 e2)
  show "pmin r' c' p' = (if c' = c \<and> p' = p then smin (pmin r c p) v else pmin r c' p')"
    by (simp add: r' e4 e3 e2)
qed

lemma process_record_succeeds:
  assumes "well_formed r" and "int (card (insert c (cities r))) \<le> NUM_CITIES"
    and "int (card (insert p (products r))) \<le> NUM_CITIES"
  shows "\<exists>r'. process_record r c p v = Inr r'"
proof -
  have "in_bounds (fst (find_or_create (city_id r) c))"
    using assms(1,2) by (intro find_or_create_in_bounds) (simp_all add: well_formed_def cities_def)
  moreover have "in_bounds (fst (find_or_create (product_id r) p))"
    using assms(1,3) by (intro find_or_create_in_bounds) (simp_all add: well_formed_def products_def)
  ultimately show ?thesis
    by (cases "find_or_create (city_id r) c"; cases "find_or_create (product_id r) p")
       (simp add: process_record_in_bounds)
qed

section \<open>Aggregating a list of records\<close>

lemma well_formed_init: "well_formed Result_init"
  by (simp add: well_formed_def Result_init_def dict_ok_Nil NUM_CITIES_def)

lemma represents_init: "represents Result_init []"
  using well_formed_init
  by (simp add: represents_def cities_def products_def csum_def pmin_def rsum_def rmin_def
      Result_init_def)

lemma rsum_snoc:
  "rsum (rows @ [x]) c = (if c = row_city x then rsum rows c + row_price x else rsum rows c)"
  by (simp add: rsum_def)

lemma rmin_snoc:
  "rmin (rows @ [x]) c p =
     (if c = row_city x \<and> p = row_product x then smin (rmin rows c p) (row_price x)
      else rmin rows c p)"
  by (auto simp: rmin_def)

lemma represents_step:
  assumes "represents r rows"
    and "process_record r (row_city x) (row_product x) (row_price x) = Inr r'"
    and "capacity (rows @ [x])"
  shows "represents r' (rows @ [x])"
proof -
  from assms(1) have well_formed: "well_formed r" by (simp add: represents_def)
  from assms(1,3) have c: "int (card (insert (row_city x) (cities r))) \<le> NUM_CITIES"
      "int (card (insert (row_product x) (products r))) \<le> NUM_CITIES"
    by (simp_all add: represents_def capacity_def)
  note s = process_record_step [OF well_formed assms(2) c]
  show ?thesis
    using assms(1) unfolding represents_def
    by (simp add: s rsum_snoc rmin_snoc)
qed

lemma for_each_append:
  "for_each f (xs @ ys) s = (case for_each f xs s of Inl e \<Rightarrow> Inl e | Inr s' \<Rightarrow> for_each f ys s')"
  by (induction xs arbitrary: s) (auto split: sum.splits)

lemma capacity_mono:
  assumes "capacity rows" and "set rows' \<subseteq> set rows"
  shows "capacity rows'"
proof -
  have "card (row_city ` set rows') \<le> card (row_city ` set rows)"
    using assms(2) by (intro card_mono) auto
  moreover have "card (row_product ` set rows') \<le> card (row_product ` set rows)"
    using assms(2) by (intro card_mono) auto
  ultimately show ?thesis using assms(1) by (simp add: capacity_def)
qed

lemma process_rows_represents:
  "represents r rows \<Longrightarrow> process_rows new r = Inr r' \<Longrightarrow> capacity (rows @ new)
   \<Longrightarrow> represents r' (rows @ new)"
proof (induction new arbitrary: r rows)
  case Nil
  then show ?case by (simp add: process_rows_def)
next
  case (Cons x new)
  from Cons.prems(2) obtain r1 where
    1: "process_record r (row_city x) (row_product x) (row_price x) = Inr r1"
    and 2: "process_rows new r1 = Inr r'"
    by (auto simp: process_rows_def split: sum.splits)
  from Cons.prems(3) have c: "capacity (rows @ [x])" by (rule capacity_mono) auto
  from Cons.IH [OF represents_step [OF Cons.prems(1) 1 c] 2] Cons.prems(3) show ?case by simp
qed

lemma process_rows_succeeds:
  "represents r rows \<Longrightarrow> capacity (rows @ new) \<Longrightarrow> \<exists>r'. process_rows new r = Inr r'"
proof (induction new arbitrary: r rows)
  case Nil
  then show ?case by (simp add: process_rows_def)
next
  case (Cons x new)
  from Cons.prems(2) have c: "capacity (rows @ [x])" by (rule capacity_mono) auto
  with Cons.prems(1) obtain r1 where
    1: "process_record r (row_city x) (row_product x) (row_price x) = Inr r1"
    using process_record_succeeds [of r "row_city x" "row_product x" "row_price x"]
    by (auto simp: represents_def capacity_def)
  from Cons.IH [OF represents_step [OF Cons.prems(1) 1 c]] Cons.prems(2)
  obtain r' where "process_rows new r1 = Inr r'" by auto
  with 1 show ?case by (simp add: process_rows_def)
qed

lemma represents_capacity: "represents r rows \<Longrightarrow> capacity rows"
  using dict_ok_card [of "city_id r"] dict_ok_card [of "product_id r"]
  by (simp add: represents_def well_formed_def capacity_def cities_def products_def)

text \<open>A chain of \<^verbatim>\<open>std::min\<close> is the signed minimum.\<close>

lemma sint_foldl_smin: "sint (foldl smin a xs) = Min (insert (sint a) (sint ` set xs))"
proof (induction xs arbitrary: a)
  case Nil
  show ?case by simp
next
  case (Cons x xs)
  have "Min (insert (min (sint a) (sint x)) (sint ` set xs))
      = Min (insert (sint a) (insert (sint x) (sint ` set xs)))"
    by (cases "xs = []") (simp_all add: min.assoc)
  with Cons show ?case by (simp add: sint_smin)
qed

lemma word_eq_sint: "sint (a::longlong) = sint b \<Longrightarrow> a = b"
  by (rule signed_word_eqI)

section \<open>The merger on aggregates\<close>

lemma smin_idem: "smin (smin a b) b = smin a b"
  by (rule word_eq_sint) (simp add: sint_smin)

lemma smin_sentinel: "sint a \<le> sint sentinel \<Longrightarrow> smin a sentinel = a"
  by (rule word_eq_sint) (simp add: sint_smin)

lemma pmin_le: "well_formed r \<Longrightarrow> sint (pmin r c p) \<le> sint sentinel"
  by (simp add: pmin_def well_formed_def split: option.splits)

lemma well_formed_entry_bounds:
  assumes "well_formed r"
  shows "(c, i) \<in> set (city_id r) \<Longrightarrow> in_bounds i"
    and "(p, j) \<in> set (product_id r) \<Longrightarrow> in_bounds j"
proof -
  assume "(c, i) \<in> set (city_id r)"
  with assms have "map_of (city_id r) c = Some i" by (simp add: well_formed_def dict_ok_entry)
  with assms dict_ok_range [of "city_id r" c i] show "in_bounds i"
    by (simp add: well_formed_def in_bounds_def)
next
  assume "(p, j) \<in> set (product_id r)"
  with assms have "map_of (product_id r) p = Some j" by (simp add: well_formed_def dict_ok_entry)
  with assms dict_ok_range [of "product_id r" p j] show "in_bounds j"
    by (simp add: well_formed_def in_bounds_def)
qed

lemma well_formed_map_of_bounds:
  assumes "well_formed r"
  shows "map_of (city_id r) c = Some i \<Longrightarrow> in_bounds i"
    and "map_of (product_id r) p = Some j \<Longrightarrow> in_bounds j"
  using assms well_formed_entry_bounds [OF assms] by (auto dest: map_of_SomeD)

lemma csum_entry: "well_formed r \<Longrightarrow> (c, i) \<in> set (city_id r) \<Longrightarrow> city_cost r i = csum r c"
  by (simp add: csum_def well_formed_def dict_ok_entry)

lemma pmin_entry:
  "well_formed r \<Longrightarrow> (c, i) \<in> set (city_id r) \<Longrightarrow> (p, j) \<in> set (product_id r)
   \<Longrightarrow> product_cost r (i, j) = pmin r c p"
  by (simp add: pmin_def well_formed_def dict_ok_entry)

lemma pmin_no_product: "p \<notin> products r \<Longrightarrow> pmin r c p = sentinel"
  by (auto simp: pmin_def products_def split: option.splits dest: map_of_SomeD intro: rev_image_eqI)

lemma pmin_no_city: "c \<notin> cities r \<Longrightarrow> pmin r c p = sentinel"
  by (auto simp: pmin_def cities_def split: option.splits dest: map_of_SomeD intro: rev_image_eqI)

lemma csum_no_city: "c \<notin> cities r \<Longrightarrow> csum r c = 0"
  by (auto simp: csum_def cities_def split: option.splits dest: map_of_SomeD intro: rev_image_eqI)

text \<open>What one pass of the innermost loop of merge does.\<close>

lemma merge_product_step:
  assumes "well_formed mr" and "well_formed r" and "map_of (city_id mr) cn = Some ncid"
    and "(cn, ci) \<in> set (city_id r)" and "(pn, pj) \<in> set (product_id r)"
    and "merge_product r ci ncid (pn, pj) mr = Inr mr'"
    and "int (card (insert pn (products mr))) \<le> NUM_CITIES"
  shows "well_formed mr'" and "cities mr' = cities mr" and "products mr' = insert pn (products mr)"
    and "csum mr' c' = csum mr c'"
    and "pmin mr' c' p' = (if c' = cn \<and> p' = pn then smin (pmin mr cn pn) (pmin r cn pn)
                          else pmin mr c' p')"
    and "map_of (city_id mr') cn = Some ncid"
proof -
  obtain npid pmap where f: "find_or_create (product_id mr) pn = (npid, pmap)"
    by (cases "find_or_create (product_id mr) pn")
  have "in_bounds (fst (find_or_create (product_id mr) pn))"
    using assms(1,7) by (intro find_or_create_in_bounds) (simp_all add: well_formed_def products_def)
  then have b: "in_bounds npid" by (simp add: f)
  have bn: "in_bounds ncid" by (rule well_formed_map_of_bounds(1) [OF assms(1,3)])
  have bi: "in_bounds ci" by (rule well_formed_entry_bounds(1) [OF assms(2,4)])
  have bj: "in_bounds pj" by (rule well_formed_entry_bounds(2) [OF assms(2,5)])
  define m1 where "m1 = mr\<lparr>product_id := pmap\<rparr>"
  define m2 where "m2 = m1\<lparr>product_cost := (product_cost m1)
      ((ncid, npid) := smin (product_cost m1 (ncid, npid)) (pmin r cn pn))\<rparr>"
  have v: "product_cost r (ci, pj) = pmin r cn pn"
    by (rule pmin_entry [OF assms(2,4,5)])
  from assms(6) have mr': "mr' = m2"
    by (simp add: merge_product_in_bounds [OF f bn b bi bj] m2_def m1_def v)
  note s1 = intern_product [OF assms(1) f b]
  have c1: "map_of (city_id m1) cn = Some ncid" using assms(3) by (simp add: m1_def)
  have p1: "map_of (product_id m1) pn = Some npid" using s1(2) by (simp add: m1_def)
  have w1: "well_formed m1" using s1(1) by (simp add: m1_def)
  note s2 = min_into_cell [OF w1 c1 p1, of "pmin r cn pn"]
  have e1: "\<And>c' p'. pmin m1 c' p' = pmin mr c' p'" "\<And>c'. csum m1 c' = csum mr c'"
      "cities m1 = cities mr" "products m1 = insert pn (products mr)"
    using s1 unfolding m1_def by simp_all
  have e2: "\<And>c' p'. pmin m2 c' p'
        = (if c' = cn \<and> p' = pn then smin (pmin m1 cn pn) (pmin r cn pn) else pmin m1 c' p')"
      "\<And>c'. csum m2 c' = csum m1 c'" "cities m2 = cities m1" "products m2 = products m1" "well_formed m2"
    using s2 unfolding m2_def by simp_all
  show "well_formed mr'" using e2 mr' by simp
  show "cities mr' = cities mr" by (simp add: mr' e2 e1)
  show "products mr' = insert pn (products mr)" by (simp add: mr' e2 e1)
  show "csum mr' c' = csum mr c'" by (simp add: mr' e2 e1)
  show "pmin mr' c' p' = (if c' = cn \<and> p' = pn then smin (pmin mr cn pn) (pmin r cn pn)
                          else pmin mr c' p')"
    by (simp add: mr' e2 e1)
  show "map_of (city_id mr') cn = Some ncid"
    using assms(3) by (simp add: mr' m2_def m1_def)
qed

lemma merge_product_succeeds:
  assumes "well_formed mr" and "well_formed r" and "map_of (city_id mr) cn = Some ncid"
    and "(cn, ci) \<in> set (city_id r)" and "(pn, pj) \<in> set (product_id r)"
    and "int (card (insert pn (products mr))) \<le> NUM_CITIES"
  shows "\<exists>mr'. merge_product r ci ncid (pn, pj) mr = Inr mr'"
proof -
  have "in_bounds (fst (find_or_create (product_id mr) pn))"
    using assms(1,6) by (intro find_or_create_in_bounds) (simp_all add: well_formed_def products_def)
  moreover have "in_bounds ncid" by (rule well_formed_map_of_bounds(1) [OF assms(1,3)])
  moreover have "in_bounds ci" by (rule well_formed_entry_bounds(1) [OF assms(2,4)])
  moreover have "in_bounds pj" by (rule well_formed_entry_bounds(2) [OF assms(2,5)])
  ultimately show ?thesis
    by (cases "find_or_create (product_id mr) pn") (simp add: merge_product_in_bounds)
qed

lemma merge_products_loop:
  assumes "well_formed r" and "(cn, ci) \<in> set (city_id r)"
  shows "well_formed mr \<Longrightarrow> map_of (city_id mr) cn = Some ncid \<Longrightarrow> set ps \<subseteq> set (product_id r)
    \<Longrightarrow> for_each (merge_product r ci ncid) ps mr = Inr mr'
    \<Longrightarrow> int (card (products mr \<union> fst ` set ps)) \<le> NUM_CITIES
    \<Longrightarrow> well_formed mr' \<and> cities mr' = cities mr \<and> products mr' = products mr \<union> fst ` set ps
        \<and> (\<forall>c'. csum mr' c' = csum mr c')
        \<and> (\<forall>c' p'. pmin mr' c' p' =
              (if c' = cn \<and> p' \<in> fst ` set ps then smin (pmin mr cn p') (pmin r cn p')
               else pmin mr c' p'))
        \<and> map_of (city_id mr') cn = Some ncid"
proof (induction ps arbitrary: mr)
  case Nil
  then show ?case by simp
next
  case (Cons e ps)
  obtain pn pj where e: "e = (pn, pj)" by (cases e)
  from Cons.prems(4) obtain m1 where 1: "merge_product r ci ncid (pn, pj) mr = Inr m1"
    and 2: "for_each (merge_product r ci ncid) ps m1 = Inr mr'"
    by (auto simp: e split: sum.splits)
  from Cons.prems(3) have mem: "(pn, pj) \<in> set (product_id r)" and sub: "set ps \<subseteq> set (product_id r)"
    by (simp_all add: e)
  have fin: "finite (products mr \<union> fst ` set (e # ps))" by (simp add: products_def)
  have "card (insert pn (products mr)) \<le> card (products mr \<union> fst ` set (e # ps))"
    by (intro card_mono fin) (auto simp: e)
  with Cons.prems(5) have c: "int (card (insert pn (products mr))) \<le> NUM_CITIES" by simp
  note s = merge_product_step [OF Cons.prems(1) assms(1) Cons.prems(2) assms(2) mem 1 c]
  have "products m1 \<union> fst ` set ps = products mr \<union> fst ` set (e # ps)"
    by (auto simp: s e)
  with Cons.prems(5) have c': "int (card (products m1 \<union> fst ` set ps)) \<le> NUM_CITIES" by simp
  from Cons.IH [OF s(1) s(6) sub 2 c'] show ?case
    by (auto simp: s e smin_idem)
qed

lemma merge_products_loop_succeeds:
  assumes "well_formed r" and "(cn, ci) \<in> set (city_id r)"
  shows "well_formed mr \<Longrightarrow> map_of (city_id mr) cn = Some ncid \<Longrightarrow> set ps \<subseteq> set (product_id r)
    \<Longrightarrow> int (card (products mr \<union> fst ` set ps)) \<le> NUM_CITIES
    \<Longrightarrow> \<exists>mr'. for_each (merge_product r ci ncid) ps mr = Inr mr'"
proof (induction ps arbitrary: mr)
  case Nil
  then show ?case by simp
next
  case (Cons e ps)
  obtain pn pj where e: "e = (pn, pj)" by (cases e)
  from Cons.prems(3) have mem: "(pn, pj) \<in> set (product_id r)" and sub: "set ps \<subseteq> set (product_id r)"
    by (simp_all add: e)
  have fin: "finite (products mr \<union> fst ` set (e # ps))" by (simp add: products_def)
  have "card (insert pn (products mr)) \<le> card (products mr \<union> fst ` set (e # ps))"
    by (intro card_mono fin) (auto simp: e)
  with Cons.prems(4) have "int (card (insert pn (products mr))) \<le> NUM_CITIES" by simp
  then have c: "int (card (insert pn (products mr))) \<le> NUM_CITIES" .
  from merge_product_succeeds [OF Cons.prems(1) assms(1) Cons.prems(2) assms(2) mem c]
  obtain m1 where 1: "merge_product r ci ncid (pn, pj) mr = Inr m1" by auto
  note s = merge_product_step [OF Cons.prems(1) assms(1) Cons.prems(2) assms(2) mem 1 c]
  have "products m1 \<union> fst ` set ps = products mr \<union> fst ` set (e # ps)"
    by (auto simp: s e)
  with Cons.prems(4) have "int (card (products m1 \<union> fst ` set ps)) \<le> NUM_CITIES" by simp
  from Cons.IH [OF s(1) s(6) sub this] 1 show ?case by (simp add: e)
qed

lemma merge_city_step:
  assumes "well_formed mr" and "well_formed r" and "(cn, ci) \<in> set (city_id r)"
    and "merge_city r (cn, ci) mr = Inr mr'"
    and "int (card (insert cn (cities mr))) \<le> NUM_CITIES"
    and "int (card (products mr \<union> products r)) \<le> NUM_CITIES"
  shows "well_formed mr' \<and> cities mr' = insert cn (cities mr) \<and> products mr' = products mr \<union> products r
    \<and> (\<forall>c'. csum mr' c' = (if c' = cn then csum mr cn + csum r cn else csum mr c'))
    \<and> (\<forall>c' p'. pmin mr' c' p' =
          (if c' = cn then smin (pmin mr cn p') (pmin r cn p') else pmin mr c' p'))"
proof -
  obtain ncid cmap where f: "find_or_create (city_id mr) cn = (ncid, cmap)"
    by (cases "find_or_create (city_id mr) cn")
  have "in_bounds (fst (find_or_create (city_id mr) cn))"
    using assms(1,5) by (intro find_or_create_in_bounds) (simp_all add: well_formed_def cities_def)
  then have b: "in_bounds ncid" by (simp add: f)
  have bi: "in_bounds ci" by (rule well_formed_entry_bounds(1) [OF assms(2,3)])
  define m1 where "m1 = mr\<lparr>city_id := cmap\<rparr>"
  define m2 where "m2 = m1\<lparr>city_cost := (city_cost m1)(ncid := city_cost m1 ncid + csum r cn)\<rparr>"
  have v: "city_cost r ci = csum r cn" by (rule csum_entry [OF assms(2,3)])
  from assms(4) have loop: "for_each (merge_product r ci ncid) (product_id r) m2 = Inr mr'"
    by (simp add: merge_city_in_bounds [OF f b bi] m2_def m1_def v)
  note s1 = intern_city [OF assms(1) f b]
  have w1: "well_formed m1" and c1: "map_of (city_id m1) cn = Some ncid"
    using s1(1,2) by (simp_all add: m1_def)
  note s2 = add_to_city [OF w1 c1, of "csum r cn"]
  have e1: "\<And>c' p'. pmin m1 c' p' = pmin mr c' p'" "\<And>c'. csum m1 c' = csum mr c'"
      "cities m1 = insert cn (cities mr)" "products m1 = products mr"
    using s1 unfolding m1_def by simp_all
  have e2: "\<And>c' p'. pmin m2 c' p' = pmin m1 c' p'"
      "\<And>c'. csum m2 c' = (if c' = cn then csum m1 cn + csum r cn else csum m1 c')"
      "cities m2 = cities m1" "products m2 = products m1" "well_formed m2"
    using s2 unfolding m2_def by simp_all
  have c2: "map_of (city_id m2) cn = Some ncid" using c1 by (simp add: m2_def)
  have "int (card (products m2 \<union> fst ` set (product_id r))) \<le> NUM_CITIES"
    using assms(6) by (simp add: e2 e1) (simp add: products_def)
  from merge_products_loop [OF assms(2,3) e2(5) c2 subset_refl loop this]
  have e3: "well_formed mr'" "cities mr' = cities m2" "products mr' = products m2 \<union> products r"
      "\<And>c'. csum mr' c' = csum m2 c'"
      "\<And>c' p'. pmin mr' c' p' =
         (if c' = cn \<and> p' \<in> products r then smin (pmin m2 cn p') (pmin r cn p')
          else pmin m2 c' p')"
    by (simp_all add: products_def)
  have pm: "pmin mr' c' p' = (if c' = cn then smin (pmin mr cn p') (pmin r cn p') else pmin mr c' p')"
    for c' p'
  proof (cases "p' \<in> products r")
    case True
    then show ?thesis by (simp add: e3 e2 e1)
  next
    case False
    then have "pmin r cn p' = sentinel" by (rule pmin_no_product)
    with False pmin_le [OF assms(1), of cn p'] show ?thesis
      by (simp add: e3 e2 e1 smin_sentinel)
  qed
  show ?thesis
    using e3(1) pm by (simp add: e3(2,3,4) e2 e1)
qed

lemma merge_city_succeeds:
  assumes "well_formed mr" and "well_formed r" and "(cn, ci) \<in> set (city_id r)"
    and "int (card (insert cn (cities mr))) \<le> NUM_CITIES"
    and "int (card (products mr \<union> products r)) \<le> NUM_CITIES"
  shows "\<exists>mr'. merge_city r (cn, ci) mr = Inr mr'"
proof -
  obtain ncid cmap where f: "find_or_create (city_id mr) cn = (ncid, cmap)"
    by (cases "find_or_create (city_id mr) cn")
  have "in_bounds (fst (find_or_create (city_id mr) cn))"
    using assms(1,4) by (intro find_or_create_in_bounds) (simp_all add: well_formed_def cities_def)
  with f have b: "in_bounds ncid" by simp
  have bi: "in_bounds ci" by (rule well_formed_entry_bounds(1) [OF assms(2,3)])
  define m1 where "m1 = mr\<lparr>city_id := cmap\<rparr>"
  define m2 where "m2 = m1\<lparr>city_cost := (city_cost m1)(ncid := city_cost m1 ncid + csum r cn)\<rparr>"
  have v: "city_cost r ci = csum r cn" by (rule csum_entry [OF assms(2,3)])
  have eq: "merge_city r (cn, ci) mr = for_each (merge_product r ci ncid) (product_id r) m2"
    by (simp add: merge_city_in_bounds [OF f b bi] m2_def m1_def v)
  note s1 = intern_city [OF assms(1) f b]
  have w1: "well_formed m1" and c1: "map_of (city_id m1) cn = Some ncid"
    using s1(1,2) by (simp_all add: m1_def)
  note s2 = add_to_city [OF w1 c1, of "csum r cn"]
  have w2: "well_formed m2" and p2: "products m2 = products mr"
    using s2 s1 unfolding m2_def m1_def by simp_all
  have c2: "map_of (city_id m2) cn = Some ncid" using c1 by (simp add: m2_def)
  have "int (card (products m2 \<union> fst ` set (product_id r))) \<le> NUM_CITIES"
    using assms(5) by (simp add: p2) (simp add: products_def)
  from merge_products_loop_succeeds [OF assms(2,3) w2 c2 subset_refl this] eq
  show ?thesis by simp
qed

lemma merge_cities_loop:
  assumes "well_formed r"
  shows "well_formed mr \<Longrightarrow> set cs \<subseteq> set (city_id r) \<Longrightarrow> distinct (map fst cs)
    \<Longrightarrow> for_each (merge_city r) cs mr = Inr mr'
    \<Longrightarrow> int (card (cities mr \<union> fst ` set cs)) \<le> NUM_CITIES
    \<Longrightarrow> int (card (products mr \<union> products r)) \<le> NUM_CITIES
    \<Longrightarrow> well_formed mr' \<and> cities mr' = cities mr \<union> fst ` set cs
        \<and> products mr' = (if cs = [] then products mr else products mr \<union> products r)
        \<and> (\<forall>c'. csum mr' c' = (if c' \<in> fst ` set cs then csum mr c' + csum r c' else csum mr c'))
        \<and> (\<forall>c' p'. pmin mr' c' p' =
              (if c' \<in> fst ` set cs then smin (pmin mr c' p') (pmin r c' p') else pmin mr c' p'))"
proof (induction cs arbitrary: mr)
  case Nil
  then show ?case by simp
next
  case (Cons e cs)
  obtain cn ci where e: "e = (cn, ci)" by (cases e)
  from Cons.prems(4) obtain m1 where 1: "merge_city r (cn, ci) mr = Inr m1"
    and 2: "for_each (merge_city r) cs m1 = Inr mr'"
    by (auto simp: e split: sum.splits)
  from Cons.prems(2,3) have mem: "(cn, ci) \<in> set (city_id r)" and sub: "set cs \<subseteq> set (city_id r)"
    and dist: "distinct (map fst cs)" and new: "cn \<notin> fst ` set cs"
    by (simp_all add: e)
  have fin: "finite (cities mr \<union> fst ` set (e # cs))" by (simp add: cities_def)
  have "card (insert cn (cities mr)) \<le> card (cities mr \<union> fst ` set (e # cs))"
    by (intro card_mono fin) (auto simp: e)
  with Cons.prems(5) have c: "int (card (insert cn (cities mr))) \<le> NUM_CITIES" by simp
  note s = merge_city_step [OF Cons.prems(1) assms mem 1 c Cons.prems(6)]
  from s have w1: "well_formed m1" by simp
  have "cities m1 \<union> fst ` set cs = cities mr \<union> fst ` set (e # cs)"
    using s by (auto simp: e)
  with Cons.prems(5) have a: "int (card (cities m1 \<union> fst ` set cs)) \<le> NUM_CITIES" by simp
  have "products m1 \<union> products r = products mr \<union> products r" using s by auto
  with Cons.prems(6) have b: "int (card (products m1 \<union> products r)) \<le> NUM_CITIES" by simp
  from Cons.IH [OF w1 sub dist 2 a b] s new show ?case
    by (auto simp: e)
qed

lemma merge_cities_loop_succeeds:
  assumes "well_formed r"
  shows "well_formed mr \<Longrightarrow> set cs \<subseteq> set (city_id r) \<Longrightarrow> distinct (map fst cs)
    \<Longrightarrow> int (card (cities mr \<union> fst ` set cs)) \<le> NUM_CITIES
    \<Longrightarrow> int (card (products mr \<union> products r)) \<le> NUM_CITIES
    \<Longrightarrow> \<exists>mr'. for_each (merge_city r) cs mr = Inr mr'"
proof (induction cs arbitrary: mr)
  case Nil
  then show ?case by simp
next
  case (Cons e cs)
  obtain cn ci where e: "e = (cn, ci)" by (cases e)
  from Cons.prems(2,3) have mem: "(cn, ci) \<in> set (city_id r)" and sub: "set cs \<subseteq> set (city_id r)"
    and dist: "distinct (map fst cs)"
    by (simp_all add: e)
  have fin: "finite (cities mr \<union> fst ` set (e # cs))" by (simp add: cities_def)
  have "card (insert cn (cities mr)) \<le> card (cities mr \<union> fst ` set (e # cs))"
    by (intro card_mono fin) (auto simp: e)
  with Cons.prems(4) have c: "int (card (insert cn (cities mr))) \<le> NUM_CITIES" by simp
  from merge_city_succeeds [OF Cons.prems(1) assms mem c Cons.prems(5)]
  obtain m1 where 1: "merge_city r (cn, ci) mr = Inr m1" by auto
  note s = merge_city_step [OF Cons.prems(1) assms mem 1 c Cons.prems(5)]
  from s have w1: "well_formed m1" by simp
  have "cities m1 \<union> fst ` set cs = cities mr \<union> fst ` set (e # cs)"
    using s by (auto simp: e)
  with Cons.prems(4) have a: "int (card (cities m1 \<union> fst ` set cs)) \<le> NUM_CITIES" by simp
  have "products m1 \<union> products r = products mr \<union> products r" using s by auto
  with Cons.prems(5) have b: "int (card (products m1 \<union> products r)) \<le> NUM_CITIES" by simp
  from Cons.IH [OF w1 sub dist a b] 1 show ?case by (simp add: e)
qed

lemma rsum_append: "rsum (xs @ ys) c = rsum xs c + rsum ys c"
  by (simp add: rsum_def)

lemma sint_rmin:
  "sint (rmin rows c p) = Min (insert (sint sentinel)
      (sint ` row_price ` {x \<in> set rows. row_city x = c \<and> row_product x = p}))"
  by (simp add: rmin_def sint_foldl_smin image_image)

lemma rmin_append: "rmin (xs @ ys) c p = smin (rmin xs c p) (rmin ys c p)"
proof (rule word_eq_sint)
  let ?A = "sint ` row_price ` {x \<in> set xs. row_city x = c \<and> row_product x = p}"
  let ?B = "sint ` row_price ` {x \<in> set ys. row_city x = c \<and> row_product x = p}"
  have "{x \<in> set (xs @ ys). row_city x = c \<and> row_product x = p}
      = {x \<in> set xs. row_city x = c \<and> row_product x = p}
        \<union> {x \<in> set ys. row_city x = c \<and> row_product x = p}" by auto
  then have "sint (rmin (xs @ ys) c p) = Min (insert (sint sentinel) ?A \<union> insert (sint sentinel) ?B)"
    by (simp add: sint_rmin image_Un)
  also have "\<dots> = min (Min (insert (sint sentinel) ?A)) (Min (insert (sint sentinel) ?B))"
    by (intro Min_Un) simp_all
  finally show "sint (rmin (xs @ ys) c p) = sint (smin (rmin xs c p) (rmin ys c p))"
    by (simp add: sint_smin sint_rmin)
qed

lemma represents_rows_empty:
  assumes "represents r rows" shows "city_id r = [] \<longleftrightarrow> rows = []"
  using assms by (auto simp: represents_def cities_def)

lemma merge_result_represents:
  assumes "represents mr acc" and "represents r rows" and "merge_result r mr = Inr mr'"
    and "capacity (acc @ rows)"
  shows "represents mr' (acc @ rows)"
proof -
  from assms(1,2) have wm: "well_formed mr" and wr: "well_formed r" by (simp_all add: represents_def)
  from wr have dist: "distinct (map fst (city_id r))" by (simp add: well_formed_def dict_ok_def)
  have a: "int (card (cities mr \<union> fst ` set (city_id r))) \<le> NUM_CITIES"
    using assms(1,2,4) unfolding represents_def capacity_def
    by (simp add: cities_def [symmetric] image_Un)
  have b: "int (card (products mr \<union> products r)) \<le> NUM_CITIES"
    using assms(1,2,4) unfolding represents_def capacity_def
    by (simp add: image_Un)
  from merge_cities_loop [OF wr wm subset_refl dist assms(3) [unfolded merge_result_def] a b]
  have s: "well_formed mr'" "cities mr' = cities mr \<union> fst ` set (city_id r)"
     "products mr' = (if city_id r = [] then products mr else products mr \<union> products r)"
     "\<And>c'. csum mr' c' = (if c' \<in> fst ` set (city_id r) then csum mr c' + csum r c' else csum mr c')"
     "\<And>c' p'. pmin mr' c' p' =
        (if c' \<in> fst ` set (city_id r) then smin (pmin mr c' p') (pmin r c' p') else pmin mr c' p')"
    by simp_all
  have 1: "csum mr' c' = csum mr c' + csum r c'" for c'
    using csum_no_city [of c' r] by (simp add: s cities_def)
  have 2: "pmin mr' c' p' = smin (pmin mr c' p') (pmin r c' p')" for c' p'
    using pmin_no_city [of c' r p'] pmin_le [OF wm, of c' p']
    by (simp add: s cities_def smin_sentinel)
  have 3: "products mr' = products mr \<union> products r"
  proof (cases "city_id r = []")
    case True
    with represents_rows_empty [OF assms(2)] assms(2) show ?thesis
      by (simp add: s represents_def)
  next
    case False
    then show ?thesis by (simp add: s)
  qed
  show ?thesis
    using assms(1,2) s(1) unfolding represents_def
    by (simp add: 1 2 3 s(2) cities_def [symmetric] rsum_append rmin_append image_Un)
qed

lemma merge_result_succeeds:
  assumes "represents mr acc" and "represents r rows" and "capacity (acc @ rows)"
  shows "\<exists>mr'. merge_result r mr = Inr mr'"
proof -
  from assms(1,2) have wm: "well_formed mr" and wr: "well_formed r" by (simp_all add: represents_def)
  from wr have dist: "distinct (map fst (city_id r))" by (simp add: well_formed_def dict_ok_def)
  have a: "int (card (cities mr \<union> fst ` set (city_id r))) \<le> NUM_CITIES"
    using assms unfolding represents_def capacity_def
    by (simp add: cities_def [symmetric] image_Un)
  have b: "int (card (products mr \<union> products r)) \<le> NUM_CITIES"
    using assms unfolding represents_def capacity_def
    by (simp add: image_Un)
  from merge_cities_loop_succeeds [OF wr wm subset_refl dist a b]
  show ?thesis by (simp add: merge_result_def)
qed

text \<open>The outer loop of \<^verbatim>\<open>merge\<close>, over the results.\<close>

lemma merge_loop_represents:
  "represents mr acc \<Longrightarrow> list_all2 represents rs rowss
   \<Longrightarrow> for_each merge_result rs mr = Inr mr' \<Longrightarrow> capacity (acc @ concat rowss)
   \<Longrightarrow> represents mr' (acc @ concat rowss)"
proof (induction rs arbitrary: mr acc rowss)
  case Nil
  then show ?case by simp
next
  case (Cons r rs)
  from Cons.prems(2) obtain rows rowss' where rowss: "rowss = rows # rowss'"
    and r: "represents r rows" and rest: "list_all2 represents rs rowss'"
    by (auto simp: list_all2_Cons1)
  from Cons.prems(3) obtain m1 where 1: "merge_result r mr = Inr m1"
    and 2: "for_each merge_result rs m1 = Inr mr'"
    by (auto split: sum.splits)
  from Cons.prems(4) have c: "capacity (acc @ rows)"
    by (rule capacity_mono) (auto simp: rowss)
  from Cons.prems(4) have c': "capacity ((acc @ rows) @ concat rowss')" by (simp add: rowss)
  from Cons.IH [OF merge_result_represents [OF Cons.prems(1) r 1 c] rest 2 c']
  show ?case by (simp add: rowss)
qed

lemma merge_loop_succeeds:
  "represents mr acc \<Longrightarrow> list_all2 represents rs rowss \<Longrightarrow> capacity (acc @ concat rowss)
   \<Longrightarrow> \<exists>mr'. for_each merge_result rs mr = Inr mr'"
proof (induction rs arbitrary: mr acc rowss)
  case Nil
  then show ?case by simp
next
  case (Cons r rs)
  from Cons.prems(2) obtain rows rowss' where rowss: "rowss = rows # rowss'"
    and r: "represents r rows" and rest: "list_all2 represents rs rowss'"
    by (auto simp: list_all2_Cons1)
  from Cons.prems(3) have c: "capacity (acc @ rows)"
    by (rule capacity_mono) (auto simp: rowss)
  from merge_result_succeeds [OF Cons.prems(1) r c]
  obtain m1 where 1: "merge_result r mr = Inr m1" by auto
  from Cons.prems(3) have "capacity ((acc @ rows) @ concat rowss')" by (simp add: rowss)
  from Cons.IH [OF merge_result_represents [OF Cons.prems(1) r 1 c] rest this] 1
  show ?case by simp
qed

lemma merge_represents:
  "list_all2 represents rs rowss \<Longrightarrow> merge rs = Inr mr \<Longrightarrow> capacity (concat rowss)
   \<Longrightarrow> represents mr (concat rowss)"
  using merge_loop_represents [OF represents_init, of rs rowss mr] by (simp add: merge_def)

lemma merge_succeeds:
  "list_all2 represents rs rowss \<Longrightarrow> capacity (concat rowss) \<Longrightarrow> \<exists>mr. merge rs = Inr mr"
  using merge_loop_succeeds [OF represents_init, of rs rowss] by (simp add: merge_def)

section \<open>The report builder on aggregates\<close>

lemma ans_city_inv:
  assumes "scan_inv r cs st" and "in_bounds k"
  shows "\<exists>st'. ans_city r (n, k) st = Inr st' \<and> scan_inv r (cs @ [(n, k)]) st'"
proof -
  obtain m w i where st: "st = (m, w, i)" by (cases st)
  let ?c = "city_cost r k"
  show ?thesis
  proof (cases "\<exists>e\<in>set cs. sint (city_cost r (snd e)) < sint sentinel")
    case False
    with assms(1) have init: "m = sentinel" "w = []" "i = - 1" by (simp_all add: scan_inv_def st)
    show ?thesis
    proof (cases "sint ?c < sint sentinel")
      case True
      with False assms(2) show ?thesis
        by (auto simp: ans_city_in_bounds st init scan_inv_def Let_def)
    next
      case c: False
      with False assms(2) show ?thesis
        by (auto simp: ans_city_in_bounds st init scan_inv_def Let_def)
    qed
  next
    case True
    with assms(1) have inv: "(w, i) \<in> set cs" "m = city_cost r i" "sint m < sint sentinel"
      "\<forall>e\<in>set cs. (sint m, w) \<le> (sint (city_cost r (snd e)), fst e)"
      by (auto simp: scan_inv_def st)
    have ex: "\<exists>e\<in>set (cs @ [(n, k)]). sint (city_cost r (snd e)) < sint sentinel"
      using True by auto
    consider (less) "sint ?c < sint m" | (tie) "?c = m" "n < w"
      | (keep) "\<not> sint ?c < sint m" "\<not> (?c = m \<and> n < w)" by blast
    then show ?thesis
    proof cases
      case less
      have "\<forall>e\<in>set cs. (sint ?c, n) \<le> (sint (city_cost r (snd e)), fst e)"
      proof
        fix e assume "e \<in> set cs"
        with inv(4) have "(sint m, w) \<le> (sint (city_cost r (snd e)), fst e)" by blast
        with less show "(sint ?c, n) \<le> (sint (city_cost r (snd e)), fst e)" by auto
      qed
      with less inv(3) assms(2) ex show ?thesis
        by (simp add: ans_city_in_bounds st scan_inv_def Let_def)
    next
      case tie
      have "\<forall>e\<in>set cs. (sint m, n) \<le> (sint (city_cost r (snd e)), fst e)"
      proof
        fix e assume "e \<in> set cs"
        with inv(4) have "(sint m, w) \<le> (sint (city_cost r (snd e)), fst e)" by blast
        with tie show "(sint m, n) \<le> (sint (city_cost r (snd e)), fst e)" by auto
      qed
      with tie inv(3) assms(2) ex show ?thesis
        by (simp add: ans_city_in_bounds st scan_inv_def Let_def)
    next
      case keep
      from keep(1) have le: "sint m \<le> sint ?c" by simp
      have "(sint m, w) \<le> (sint ?c, n)"
      proof (cases "sint m = sint ?c")
        case True
        then have "?c = m" by (intro word_eq_sint) simp
        with keep(2) have "w \<le> n" by simp
        with True show ?thesis by simp
      next
        case False
        with le show ?thesis by simp
      qed
      then have "scan_inv r (cs @ [(n, k)]) st"
        using inv ex unfolding scan_inv_def st
        by (simp del: less_eq_prod_simp)
      moreover have "ans_city r (n, k) st = Inr st"
        using assms(2) keep by (auto simp: ans_city_in_bounds st Let_def)
      ultimately show ?thesis by simp
    qed
  qed
qed

lemma ans_scan_inv:
  assumes "well_formed r"
  shows "set cs \<subseteq> set (city_id r)
    \<Longrightarrow> \<exists>st. for_each (ans_city r) cs (sentinel, [], - 1) = Inr st \<and> scan_inv r cs st"
proof (induction cs rule: rev_induct)
  case Nil
  show ?case by (simp add: scan_inv_def)
next
  case (snoc e cs)
  obtain n k where e: "e = (n, k)" by (cases e)
  from snoc.prems have "(n, k) \<in> set (city_id r)" and sub: "set cs \<subseteq> set (city_id r)"
    by (simp_all add: e)
  then have b: "in_bounds k" using well_formed_entry_bounds(1) [OF assms] by blast
  from snoc.IH [OF sub] obtain st where
    1: "for_each (ans_city r) cs (sentinel, [], - 1) = Inr st" and 2: "scan_inv r cs st" by auto
  from ans_city_inv [OF 2 b, of n] 1 show ?case
    by (auto simp: for_each_append e)
qed

text \<open>The first loop of \<open>ans\<close> in terms of the contents of the aggregate.\<close>

lemma ans_scan:
  assumes "well_formed r"
  shows "\<exists>m w i. for_each (ans_city r) (city_id r) (sentinel, [], - 1) = Inr (m, w, i)
     \<and> (if below_sentinel r
        then w \<in> cities r \<and> map_of (city_id r) w = Some i \<and> m = csum r w
             \<and> (\<forall>c\<in>cities r. (sint (csum r w), w) \<le> (sint (csum r c), c))
        else m = sentinel \<and> w = [] \<and> i = - 1)"
proof -
  from ans_scan_inv [OF assms subset_refl] obtain m w i where
    1: "for_each (ans_city r) (city_id r) (sentinel, [], - 1) = Inr (m, w, i)"
    and 2: "scan_inv r (city_id r) (m, w, i)" by auto
  have cost: "\<And>e. e \<in> set (city_id r) \<Longrightarrow> city_cost r (snd e) = csum r (fst e)"
    using csum_entry [OF assms] by (metis prod.collapse)
  have ex: "(\<exists>e\<in>set (city_id r). sint (city_cost r (snd e)) < sint sentinel) = below_sentinel r"
    using cost by (auto simp: below_sentinel_def cities_def)
  show ?thesis
  proof (cases "below_sentinel r")
    case False
    with 1 2 ex show ?thesis by (simp add: scan_inv_def)
  next
    case True
    with 2 ex have inv: "(w, i) \<in> set (city_id r)" "m = city_cost r i"
      "\<forall>e\<in>set (city_id r). (sint m, w) \<le> (sint (city_cost r (snd e)), fst e)"
      by (auto simp: scan_inv_def)
    from inv(1) have w: "w \<in> cities r" by (force simp: cities_def)
    from inv(1) assms have mo: "map_of (city_id r) w = Some i" by (simp add: well_formed_def dict_ok_entry)
    from inv(1,2) have m: "m = csum r w" using cost [of "(w, i)"] by simp
    have "\<forall>c\<in>cities r. (sint (csum r w), w) \<le> (sint (csum r c), c)"
    proof
      fix c assume "c \<in> cities r"
      then obtain k where "(c, k) \<in> set (city_id r)" by (auto simp: cities_def)
      with inv(3) cost [of "(c, k)"] m show "(sint (csum r w), w) \<le> (sint (csum r c), c)"
        by fastforce
    qed
    with True 1 w mo m show ?thesis by simp
  qed
qed

text \<open>The second loop.\<close>

lemma ans_products_loop:
  assumes "well_formed r" and "map_of (city_id r) w = Some i"
  shows "set ps \<subseteq> set (product_id r)
    \<Longrightarrow> for_each (ans_product r i) ps acc
        = Inr (acc @ map (\<lambda>e. (sint (pmin r w (fst e)), fst e)) ps)"
proof (induction ps arbitrary: acc)
  case Nil
  show ?case by simp
next
  case (Cons e ps)
  obtain p j where e: "e = (p, j)" by (cases e)
  from Cons.prems have mem: "(p, j) \<in> set (product_id r)" and sub: "set ps \<subseteq> set (product_id r)"
    by (simp_all add: e)
  have bi: "in_bounds i" by (rule well_formed_map_of_bounds(1) [OF assms])
  have bj: "in_bounds j" by (rule well_formed_entry_bounds(2) [OF assms(1) mem])
  have "(w, i) \<in> set (city_id r)" using assms(2) by (rule map_of_SomeD)
  from pmin_entry [OF assms(1) this mem] have v: "product_cost r (i, j) = pmin r w p" .
  show ?case
    using Cons.IH [OF sub] by (simp add: e ans_product_in_bounds [OF bi bj] v)
qed

lemma ans_products_no_city:
  assumes "well_formed r"
  shows "set ps \<subseteq> set (product_id r)
    \<Longrightarrow> for_each (ans_product r (- 1)) ps acc
        = Inr (acc @ map (\<lambda>e. (sint (city_cost r (snd e)), fst e)) ps)"
proof (induction ps arbitrary: acc)
  case Nil
  show ?case by simp
next
  case (Cons e ps)
  obtain p j where e: "e = (p, j)" by (cases e)
  from Cons.prems have mem: "(p, j) \<in> set (product_id r)" and sub: "set ps \<subseteq> set (product_id r)"
    by (simp_all add: e)
  have bj: "in_bounds j" by (rule well_formed_entry_bounds(2) [OF assms mem])
  show ?case
    using Cons.IH [OF sub] by (simp add: e ans_product_no_city [OF bj])
qed

lemma sort_mset_eq: "mset xs = mset ys \<Longrightarrow> sort xs = sort (ys :: 'a::linorder list)"
  by (rule properties_for_sort) simp_all

lemma ans_with_city:
  assumes "well_formed r" and "below_sentinel r"
  shows "\<exists>w. ans r = Inr ((w, sint (csum r w)) # map (\<lambda>p. (snd p, fst p)) (resize5 (product_lines r w)))
     \<and> w \<in> cities r \<and> (\<forall>c\<in>cities r. (sint (csum r w), w) \<le> (sint (csum r c), c))"
proof -
  from ans_scan [OF assms(1)] assms(2) obtain m w i where
    1: "for_each (ans_city r) (city_id r) (sentinel, [], - 1) = Inr (m, w, i)"
    and 2: "w \<in> cities r" "map_of (city_id r) w = Some i" "m = csum r w"
      "\<forall>c\<in>cities r. (sint (csum r w), w) \<le> (sint (csum r c), c)"
    by auto
  have 3: "for_each (ans_product r i) (product_id r) []
      = Inr (map (\<lambda>e. (sint (pmin r w (fst e)), fst e)) (product_id r))"
    using ans_products_loop [OF assms(1) 2(2) subset_refl, of "[]"] by simp
  have "ans r = Inr ((w, sint (csum r w)) # map (\<lambda>p. (snd p, fst p)) (resize5 (product_lines r w)))"
    by (simp add: ans_def 1 3 2(3) product_lines_def comp_def)
  with 2 show ?thesis by blast
qed

lemma ans_without_city:
  assumes "well_formed r" and "\<not> below_sentinel r"
  shows "ans r = Inr (([], sint sentinel) # map (\<lambda>p. (snd p, fst p)) (resize5 (stray_lines r)))"
proof -
  from ans_scan [OF assms(1)] assms(2) have
    1: "for_each (ans_city r) (city_id r) (sentinel, [], - 1) = Inr (sentinel, [], - 1)"
    by auto
  have 2: "for_each (ans_product r (- 1)) (product_id r) []
      = Inr (map (\<lambda>e. (sint (city_cost r (snd e)), fst e)) (product_id r))"
    using ans_products_no_city [OF assms(1) subset_refl, of "[]"] by simp
  show ?thesis
    by (simp add: ans_def 1 2 stray_lines_def)
qed

lemma product_lines_cong:
  assumes "well_formed r1" and "well_formed r2" and "products r1 = products r2"
    and "\<And>p. pmin r1 w p = pmin r2 w p"
  shows "product_lines r1 w = product_lines r2 w"
proof -
  have d1: "distinct (map fst (product_id r1))" and d2: "distinct (map fst (product_id r2))"
    using assms(1,2) by (simp_all add: well_formed_def dict_ok_def)
  have "set (map fst (product_id r1)) = set (map fst (product_id r2))"
    using assms(3) by (simp add: products_def)
  then have m: "mset (map fst (product_id r1)) = mset (map fst (product_id r2))"
    by (rule iffD1 [OF set_eq_iff_mset_eq_distinct [OF d1 d2]])
  have g: "(\<lambda>p. (sint (pmin r1 w p), p)) = (\<lambda>p. (sint (pmin r2 w p), p))"
    using assms(4) by simp
  have "mset (map (\<lambda>p. (sint (pmin r1 w p), p)) (map fst (product_id r1)))
      = image_mset (\<lambda>p. (sint (pmin r1 w p), p)) (mset (map fst (product_id r1)))"
    by (rule mset_map)
  also have "\<dots> = image_mset (\<lambda>p. (sint (pmin r2 w p), p)) (mset (map fst (product_id r2)))"
    by (simp only: m g)
  also have "\<dots> = mset (map (\<lambda>p. (sint (pmin r2 w p), p)) (map fst (product_id r2)))"
    by (rule mset_map [symmetric])
  finally show ?thesis unfolding product_lines_def by (rule sort_mset_eq)
qed

lemma ans_cong:
  assumes "well_formed r1" and "well_formed r2" and "cities r1 = cities r2" and "products r1 = products r2"
    and "\<And>c. csum r1 c = csum r2 c" and "\<And>c p. pmin r1 c p = pmin r2 c p"
    and "below_sentinel r1"
  shows "ans r1 = ans r2"
proof -
  note True = assms(7)
  then have b2: "below_sentinel r2" using assms(3,5) by (simp add: below_sentinel_def)
  from ans_with_city [OF assms(1) True] obtain w1 where
    1: "ans r1 = Inr ((w1, sint (csum r1 w1)) # map (\<lambda>p. (snd p, fst p)) (resize5 (product_lines r1 w1)))"
    and w1: "w1 \<in> cities r1" "\<forall>c\<in>cities r1. (sint (csum r1 w1), w1) \<le> (sint (csum r1 c), c)"
    by blast
  from ans_with_city [OF assms(2) b2] obtain w2 where
    2: "ans r2 = Inr ((w2, sint (csum r2 w2)) # map (\<lambda>p. (snd p, fst p)) (resize5 (product_lines r2 w2)))"
    and w2: "w2 \<in> cities r2" "\<forall>c\<in>cities r2. (sint (csum r2 w2), w2) \<le> (sint (csum r2 c), c)"
    by blast
  have "(sint (csum r1 w1), w1) \<le> (sint (csum r1 w2), w2)"
    using w1(2) w2(1) assms(3) by blast
  moreover have "(sint (csum r1 w2), w2) \<le> (sint (csum r1 w1), w1)"
    using w2(2) w1(1) assms(3,5) by auto
  ultimately have "(sint (csum r1 w1), w1) = (sint (csum r1 w2), w2)" by (rule antisym)
  then have eq: "w1 = w2" by simp
  have "product_lines r1 w1 = product_lines r2 w1"
    using assms(1,2,4,6) by (rule product_lines_cong)
  with 1 2 eq assms(5) show ?thesis by simp
qed

section \<open>The rows of a chunk, and the pool\<close>

lemma process_chunk_loop_rows:
  "decode_loop mem cur chunk_end = Inr rows
   \<Longrightarrow> process_chunk_loop mem r cur chunk_end = process_rows rows r"
proof (induction mem cur chunk_end arbitrary: rows r rule: decode_loop.induct)
  case (1 mem cur chunk_end)
  show ?case
  proof (cases "cur < chunk_end")
    case False
    with "1.prems" have "rows = []" by (subst (asm) decode_loop.simps) simp
    with False show ?thesis
      by (subst process_chunk_loop.simps) (simp add: process_rows_def)
  next
    case True
    with "1.prems" obtain cur' city product price rest where
      c: "consume_record mem cur = Inr (cur', city, product, price)"
      and d: "decode_loop mem cur' chunk_end = Inr rest"
      and rows: "rows = (city, product, price) # rest"
      by (subst (asm) decode_loop.simps) (auto split: sum.splits prod.splits)
    show ?thesis
    proof (cases "process_record r city product price")
      case (Inl e)
      with True c rows show ?thesis
        by (subst process_chunk_loop.simps)
           (simp add: process_rows_def row_city_def row_product_def row_price_def)
    next
      case (Inr r')
      have "process_chunk_loop mem r' cur' chunk_end = process_rows rest r'"
        using "1.IH" [OF True c refl refl refl d] .
      with True c rows Inr show ?thesis
        by (subst process_chunk_loop.simps)
           (simp add: process_rows_def row_city_def row_product_def row_price_def)
    qed
  qed
qed

lemma process_chunk_rows:
  "chunk_rows mem start chunk_end = Inr rows
   \<Longrightarrow> process_chunk mem r start chunk_end = process_rows rows r"
  unfolding chunk_rows_def process_chunk_def
  by (auto split: if_splits sum.splits simp: process_chunk_loop_rows)

text \<open>Permutations of the rows.\<close>

lemma rsum_mset: "mset xs = mset ys \<Longrightarrow> rsum xs c = rsum ys c"
proof -
  assume eq: "mset xs = mset ys"
  have "rsum zs c = sum_mset (image_mset row_price (filter_mset (\<lambda>x. row_city x = c) (mset zs)))"
    for zs
    unfolding rsum_def by (simp flip: sum_mset_sum_list)
  with eq show ?thesis by simp
qed

lemma rmin_mset: "mset xs = mset ys \<Longrightarrow> rmin xs c p = rmin ys c p"
proof (rule word_eq_sint)
  assume "mset xs = mset ys"
  then have "set xs = set ys" by (rule mset_eq_setD)
  then show "sint (rmin xs c p) = sint (rmin ys c p)" by (simp add: sint_rmin)
qed

lemma represents_mset: "represents r xs \<Longrightarrow> mset xs = mset ys \<Longrightarrow> represents r ys"
  using rsum_mset [of xs ys] rmin_mset [of xs ys] mset_eq_setD [of xs ys]
  by (simp add: represents_def)

lemma capacity_mset: "capacity xs \<Longrightarrow> mset xs = mset ys \<Longrightarrow> capacity ys"
  using mset_eq_setD [of xs ys] by (simp add: capacity_def)

lemma mset_concat_update:
  "w < length xss \<Longrightarrow> mset (concat (xss[w := xss ! w @ ys])) = mset (concat xss) + mset ys"
proof (induction xss arbitrary: w)
  case Nil
  then show ?case by simp
next
  case (Cons xs xss)
  then show ?case by (cases w) simp_all
qed

text \<open>The pool: every slot holds the aggregate of the rows of the jobs it ran.\<close>

lemma run_jobs_represents:
  "list_all2 (\<lambda>job rows. chunk_rows mem (fst job) (snd job) = Inr rows) jobs rowss
   \<Longrightarrow> list_all2 represents results wrows
   \<Longrightarrow> run_jobs mem sched j jobs results = Inr results'
   \<Longrightarrow> capacity (concat wrows @ concat rowss)
   \<Longrightarrow> \<exists>wrows'. list_all2 represents results' wrows'
         \<and> mset (concat wrows') = mset (concat wrows) + mset (concat rowss)"
proof (induction jobs arbitrary: rowss results wrows j)
  case Nil
  then show ?case by auto
next
  case (Cons job jobs)
  obtain s e where job: "job = (s, e)" by (cases job)
  from Cons.prems(1) obtain rows rowss' where rowss: "rowss = rows # rowss'"
    and rows: "chunk_rows mem s e = Inr rows"
    and rest: "list_all2 (\<lambda>job rows. chunk_rows mem (fst job) (snd job) = Inr rows) jobs rowss'"
    by (auto simp: list_all2_Cons1 job)
  from Cons.prems(3) have ne: "results \<noteq> []" by (auto simp: job split: if_splits)
  define w where "w = sched j mod length results"
  from ne have w: "w < length results" by (simp add: w_def)
  from Cons.prems(3) ne obtain r' where
    1: "process_chunk mem (results ! w) s e = Inr r'"
    and 2: "run_jobs mem sched (j + 1) jobs (results[w := r']) = Inr results'"
    by (auto simp: job w_def Let_def split: sum.splits)
  from Cons.prems(2) w have len: "length wrows = length results"
    and rw: "represents (results ! w) (wrows ! w)"
    by (auto simp: list_all2_conv_all_nth)
  from 1 have p: "process_rows rows (results ! w) = Inr r'"
    by (simp add: process_chunk_rows [OF rows])
  have "wrows ! w \<in> set wrows" using w len by (intro nth_mem) simp
  then have "set (wrows ! w) \<subseteq> set (concat wrows)" by auto
  then have "set (wrows ! w @ rows) \<subseteq> set (concat wrows @ concat rowss)"
    by (auto simp: rowss)
  with Cons.prems(4) have cw: "capacity (wrows ! w @ rows)" by (rule capacity_mono)
  from process_rows_represents [OF rw p cw] have r': "represents r' (wrows ! w @ rows)" .
  have l: "list_all2 represents (results[w := r']) (wrows[w := wrows ! w @ rows])"
    using Cons.prems(2) r' by (intro list_all2_update_cong) simp_all
  have "mset (concat (wrows[w := wrows ! w @ rows]) @ concat rowss')
      = mset (concat wrows @ concat rowss)"
    using w len by (simp add: mset_concat_update rowss)
  with Cons.prems(4) have c: "capacity (concat (wrows[w := wrows ! w @ rows]) @ concat rowss')"
    using capacity_mset by metis
  from Cons.IH [OF rest l 2 c] obtain wrows' where
    a: "list_all2 represents results' wrows'"
    and b: "mset (concat wrows') = mset (concat (wrows[w := wrows ! w @ rows])) + mset (concat rowss')"
    by auto
  from b w len have "mset (concat wrows') = mset (concat wrows) + mset (concat rowss)"
    by (simp add: mset_concat_update rowss)
  with a show ?case by blast
qed

lemma run_jobs_succeeds:
  "list_all2 (\<lambda>job rows. chunk_rows mem (fst job) (snd job) = Inr rows) jobs rowss
   \<Longrightarrow> list_all2 represents results wrows
   \<Longrightarrow> results \<noteq> []
   \<Longrightarrow> capacity (concat wrows @ concat rowss)
   \<Longrightarrow> \<exists>results'. run_jobs mem sched j jobs results = Inr results'"
proof (induction jobs arbitrary: rowss results wrows j)
  case Nil
  then show ?case by auto
next
  case (Cons job jobs)
  obtain s e where job: "job = (s, e)" by (cases job)
  from Cons.prems(1) obtain rows rowss' where rowss: "rowss = rows # rowss'"
    and rows: "chunk_rows mem s e = Inr rows"
    and rest: "list_all2 (\<lambda>job rows. chunk_rows mem (fst job) (snd job) = Inr rows) jobs rowss'"
    by (auto simp: list_all2_Cons1 job)
  define w where "w = sched j mod length results"
  from Cons.prems(3) have w: "w < length results" by (simp add: w_def)
  from Cons.prems(2) w have len: "length wrows = length results"
    and rw: "represents (results ! w) (wrows ! w)"
    by (auto simp: list_all2_conv_all_nth)
  have "wrows ! w \<in> set wrows" using w len by (intro nth_mem) simp
  then have "set (wrows ! w) \<subseteq> set (concat wrows)" by auto
  then have "set (wrows ! w @ rows) \<subseteq> set (concat wrows @ concat rowss)"
    by (auto simp: rowss)
  with Cons.prems(4) have cw: "capacity (wrows ! w @ rows)" by (rule capacity_mono)
  from process_rows_succeeds [OF rw cw] obtain r' where
    p: "process_rows rows (results ! w) = Inr r'" by auto
  then have 1: "process_chunk mem (results ! w) s e = Inr r'"
    by (simp add: process_chunk_rows [OF rows])
  from process_rows_represents [OF rw p cw] have r': "represents r' (wrows ! w @ rows)" .
  have l: "list_all2 represents (results[w := r']) (wrows[w := wrows ! w @ rows])"
    using Cons.prems(2) r' by (intro list_all2_update_cong) simp_all
  have "mset (concat (wrows[w := wrows ! w @ rows]) @ concat rowss')
      = mset (concat wrows @ concat rowss)"
    using w len by (simp add: mset_concat_update rowss)
  with Cons.prems(4) have c: "capacity (concat (wrows[w := wrows ! w @ rows]) @ concat rowss')"
    using capacity_mset by metis
  from Cons.IH [OF rest l _ c, of "j + 1"] Cons.prems(3) obtain results' where
    "run_jobs mem sched (j + 1) jobs (results[w := r']) = Inr results'" by auto
  with 1 Cons.prems(3) show ?case by (simp add: job w_def Let_def)
qed

lemma represents_replicate_init:
  "list_all2 represents (replicate n Result_init) (replicate n [])"
  by (simp add: list_all2_conv_all_nth represents_init)

lemma concat_replicate_Nil: "concat (replicate n []) = []"
  by (induction n) simp_all

text \<open>The whole pipeline on a list of jobs.\<close>

lemma pipeline_represents:
  assumes "list_all2 (\<lambda>job rows. chunk_rows mem (fst job) (snd job) = Inr rows) jobs rowss"
    and "run_jobs mem sched 0 jobs (replicate n Result_init) = Inr results"
    and "merge results = Inr mr"
    and "capacity (concat rowss)"
  shows "represents mr (concat rowss)"
proof -
  have c: "capacity (concat (replicate n []) @ concat rowss)"
    using assms(4) by (simp add: concat_replicate_Nil)
  from run_jobs_represents [OF assms(1) represents_replicate_init assms(2) c]
  obtain wrows where a: "list_all2 represents results wrows"
    and b: "mset (concat wrows) = mset (concat rowss)"
    by (auto simp: concat_replicate_Nil)
  from assms(4) b have "capacity (concat wrows)" using capacity_mset by metis
  from merge_represents [OF a assms(3) this] b show ?thesis by (rule represents_mset)
qed

lemma pipeline_succeeds:
  assumes "list_all2 (\<lambda>job rows. chunk_rows mem (fst job) (snd job) = Inr rows) jobs rowss"
    and "capacity (concat rowss)" and "0 < n"
  shows "\<exists>results mr. run_jobs mem sched 0 jobs (replicate n Result_init) = Inr results
           \<and> merge results = Inr mr"
proof -
  have ne: "replicate n Result_init \<noteq> []" using assms(3) by simp
  have c: "capacity (concat (replicate n []) @ concat rowss)"
    using assms(2) by (simp add: concat_replicate_Nil)
  from run_jobs_succeeds [OF assms(1) represents_replicate_init ne c]
  obtain results where 1: "run_jobs mem sched 0 jobs (replicate n Result_init) = Inr results"
    by auto
  from run_jobs_represents [OF assms(1) represents_replicate_init 1 c]
  obtain wrows where a: "list_all2 represents results wrows"
    and b: "mset (concat wrows) = mset (concat rowss)"
    by (auto simp: concat_replicate_Nil)
  from assms(2) b have "capacity (concat wrows)" using capacity_mset by metis
  from merge_succeeds [OF a this] 1 show ?thesis by blast
qed

text \<open>
  With as many threads as jobs and job \<open>k\<close> on thread \<open>k\<close>, the run on the bytes is the
  pipeline on the rows that the chunks decode.
\<close>

lemma run_jobs_rows:
  "list_all2 (\<lambda>job rows. chunk_rows mem (fst job) (snd job) = Inr rows) jobs rowss
   \<Longrightarrow> j + length jobs \<le> length results
   \<Longrightarrow> \<forall>k. j \<le> k \<and> k < length results \<longrightarrow> results ! k = Result_init
   \<Longrightarrow> run_jobs mem (\<lambda>j. j) j jobs results
       = (case results_of_rows rowss of
            Inl e \<Rightarrow> Inl e
          | Inr rs \<Rightarrow> Inr (take j results @ rs @ drop (j + length jobs) results))"
proof (induction jobs arbitrary: rowss j results)
  case Nil
  then show ?case by simp
next
  case (Cons job jobs)
  obtain s e where job: "job = (s, e)" by (cases job)
  from Cons.prems(1) obtain rows rowss' where rowss: "rowss = rows # rowss'"
    and rows: "chunk_rows mem s e = Inr rows"
    and rest: "list_all2 (\<lambda>job rows. chunk_rows mem (fst job) (snd job) = Inr rows) jobs rowss'"
    by (auto simp: list_all2_Cons1 job)
  from Cons.prems(2) have j: "j < length results" and ne: "results \<noteq> []" by auto
  then have w: "j mod length results = j" by simp
  from Cons.prems(3) j have init: "results ! j = Result_init" by simp
  have pc: "process_chunk mem (results ! j) s e = process_rows rows Result_init"
    by (simp add: init process_chunk_rows [OF rows])
  show ?case
  proof (cases "process_rows rows Result_init")
    case (Inl err)
    with ne show ?thesis by (simp add: job rowss w pc Let_def)
  next
    case (Inr r)
    have a: "Suc j + length jobs \<le> length (results[j := r])" using Cons.prems(2) by simp
    have b: "\<forall>k. Suc j \<le> k \<and> k < length (results[j := r]) \<longrightarrow> results[j := r] ! k = Result_init"
      using Cons.prems(3) by simp
    have t: "take (Suc j) (results[j := r]) = take j results @ [r]"
      using j by (simp add: take_Suc_conv_app_nth)
    from Cons.IH [OF rest a b] ne show ?thesis
      by (simp add: job rowss w pc Inr Let_def t split: sum.splits)
  qed
qed

lemma report_of_jobs_rows:
  assumes "list_all2 (\<lambda>job rows. chunk_rows mem (fst job) (snd job) = Inr rows) jobs rowss"
  shows "report_of_jobs mem (length jobs) (\<lambda>j. j) jobs = report_of_rows rowss"
proof -
  have "run_jobs mem (\<lambda>j. j) 0 jobs (replicate (length jobs) Result_init)
      = (case results_of_rows rowss of Inl e \<Rightarrow> Inl e | Inr rs \<Rightarrow> Inr rs)"
    using run_jobs_rows [OF assms, of 0 "replicate (length jobs) Result_init"]
    by (simp split: sum.splits)
  then show ?thesis
    by (simp add: report_of_jobs_def report_of_rows_def aggregate_of_rows_def split: sum.splits)
qed

section \<open>Claims on the aggregation\<close>

lemma word_sum_list_sint: "sum_list ws = (word_of_int (sum_list (map sint ws)) :: longlong)"
  by (induction ws) simp_all

lemma sint_sum_list:
  assumes "- (2 ^ 63) \<le> sum_list (map sint ws)" and "sum_list (map sint ws) < 2 ^ 63"
  shows "sint (sum_list ws :: longlong) = sum_list (map sint ws)"
proof -
  have "sint (sum_list ws) = signed_take_bit 63 (sum_list (map sint ws))"
    by (subst word_sum_list_sint) (simp add: signed_of_int)
  also have "\<dots> = sum_list (map sint ws)"
    using assms by (intro signed_take_bit_int_eq_self) simp_all
  finally show ?thesis .
qed

lemma Min_insert_above:
  assumes "finite A" and "a \<in> A" and "a \<le> (s::int)"
  shows "Min (insert s A) = Min A"
proof -
  from assms(1,2) have "Min A \<le> a" by (rule Min_le)
  with assms(3) have "Min A \<le> s" by simp
  moreover from assms(2) have "A \<noteq> {}" by auto
  ultimately have "min s (Min A) = Min A" by (simp add: min_def)
  moreover have "Min (insert s A) = min s (Min A)"
    using assms(1) \<open>A \<noteq> {}\<close> by (rule Min_insert)
  ultimately show ?thesis by simp
qed

lemmas decode_simps =
  chunk_rows_def decode_loop.simps roundtrip_mem_def roundtrip_def newline_def rawmemchr.simps
  consume_record_def consume_str.simps consume_float_as_long_def integral_part.simps
  fractional_part.simps is_digit_def

lemma map_input_roundtrip:
  "map_input 64 3 (Some roundtrip)
     = Inr \<lparr>fd = 3, file_size = 55, file_data = roundtrip_mem\<rparr>"
  by (simp add: map_input_def roundtrip_mem_def roundtrip_def)

lemma chunk_rows_roundtrip:
  "chunk_rows roundtrip_mem 0 55 = Inr roundtrip_rows"
  "chunk_rows roundtrip_mem 0 30 = Inr (take 2 roundtrip_rows)"
  "chunk_rows roundtrip_mem 30 55 = Inr (drop 2 roundtrip_rows)"
  by (simp_all add: decode_simps roundtrip_rows_def)

lemma capacity_short:
  assumes "int (length rows) \<le> NUM_CITIES"
  shows "capacity rows"
proof -
  have "card (f ` set rows) \<le> length rows" for f :: "row \<Rightarrow> string"
    using card_image_le [of "set rows" f] card_length [of rows] by simp
  from this [of row_city] this [of row_product] assms show ?thesis
    by (simp add: capacity_def)
qed

lemma capacity_roundtrip: "capacity roundtrip_rows"
  by (rule capacity_short) (simp add: roundtrip_rows_def NUM_CITIES_def)

text \<open>
  The rows with 103 products, evaluated: as one chunk, and as two chunks with the
  chunk of city B in the first slot.
\<close>

lemma overflow_capacity:
  "length overflow_products = 103" "distinct overflow_products"
  by (code_simp, code_simp)

lemma not_capacity: "\<not> capacity (overflow_rows_A @ overflow_rows_B)"
  by code_simp

lemma overflow_single:
  "map_sum id (\<lambda>mr. (sint (pmin mr ''B'' ''a0''), ans mr))
     (aggregate_of_rows [overflow_rows_A @ overflow_rows_B])
   = Inr (100, Inr [(''B'', 500), (''a0'', 100), (''a1'', 4000000000000000000),
                    (''a2'', 4000000000000000000), (''a3'', 4000000000000000000),
                    (''b0'', 4000000000000000000)])"
  by code_simp

lemma overflow_swapped:
  "report_of_rows [overflow_rows_B, overflow_rows_A]
   = Inr [(''B'', 500), (''z2'', 100), (''a0'', 500), (''a1'', 4000000000000000000),
          (''a2'', 4000000000000000000), (''a3'', 4000000000000000000)]"
  by code_simp

text \<open>
  Claim C1, as stated, fails for rows that name more than \<^verbatim>\<open>NUM_CITIES\<close> products. In
  the rows with 103 products, processed as one chunk, the product z2 gets the
  identifier 102 in city A, which has the identifier 0, and
  \<^verbatim>\<open>product_cost[0][102]\<close> is the cell \<^verbatim>\<open>product_cost[1][0]\<close>: the price 1.00 of A and z2
  lands in the cell of city B and product a0. The only row of B and a0 has the
  price 500, and the merged aggregate holds the minimum 100 for that pair. (By
  \<open>run_jobs_rows\<close>, this is the aggregate of every run in which one chunk decodes
  into these rows.)
\<close>

theorem merged_aggregate_counterexample:
  "length overflow_products = 103 \<and> distinct overflow_products
   \<and> \<not> capacity (overflow_rows_A @ overflow_rows_B)
   \<and> map row_price (filter (\<lambda>x. row_city x = ''B'' \<and> row_product x = ''a0'')
        (overflow_rows_A @ overflow_rows_B)) = [500]
   \<and> map_sum id (\<lambda>mr. sint (pmin mr ''B'' ''a0''))
        (aggregate_of_rows [overflow_rows_A @ overflow_rows_B]) = Inr 100"
proof -
  have 1: "map row_price (filter (\<lambda>x. row_city x = ''B'' \<and> row_product x = ''a0'')
        (overflow_rows_A @ overflow_rows_B)) = [500]"
    by code_simp
  have 2: "map_sum id (\<lambda>mr. sint (pmin mr ''B'' ''a0''))
        (aggregate_of_rows [overflow_rows_A @ overflow_rows_B]) = Inr 100"
    using overflow_single
    by (cases "aggregate_of_rows [overflow_rows_A @ overflow_rows_B]") simp_all
  from overflow_capacity not_capacity 1 2 show ?thesis by (intro conjI)
qed

text \<open>
  Claim C1, amended. Take any list of jobs (byte ranges of the mapped memory) whose chunks
  all decode, job \<open>k\<close> into the rows \<open>rowss ! k\<close>, such that all the rows together
  name at most \<^verbatim>\<open>NUM_CITIES\<close> cities and at most \<^verbatim>\<open>NUM_CITIES\<close> products, and any
  assignment \<open>sched\<close> of the jobs to one or more threads. Then the pool and the
  merger both return, and in the merged \<^verbatim>\<open>Result\<close> the cities and products are the
  ones of the rows, the sum stored for every city is the sum of the prices of all
  rows naming that city (in 64-bit arithmetic, and as an integer when that sum
  fits into 64 bits), and the minimum stored for every city and product is the
  least of the initial value 4000000000000000000 and the prices of all rows with
  exactly that pair, hence the least price of the pair as soon as one of its
  prices is not above the initial value.
\<close>

theorem merged_aggregate_correct:
  assumes "list_all2 (\<lambda>job rows. chunk_rows mem (fst job) (snd job) = Inr rows) jobs rowss"
    and "capacity (concat rowss)" and "0 < num_threads"
  shows "\<exists>results mr.
      run_jobs mem sched 0 jobs (replicate num_threads Result_init) = Inr results
      \<and> merge results = Inr mr
      \<and> cities mr = row_city ` set (concat rowss)
      \<and> products mr = row_product ` set (concat rowss)
      \<and> (\<forall>c. csum mr c
            = sum_list (map row_price (filter (\<lambda>x. row_city x = c) (concat rowss))))
      \<and> (\<forall>c. - (2 ^ 63) \<le> sum_list (map (\<lambda>x. sint (row_price x))
                                 (filter (\<lambda>x. row_city x = c) (concat rowss)))
             \<and> sum_list (map (\<lambda>x. sint (row_price x))
                  (filter (\<lambda>x. row_city x = c) (concat rowss))) < 2 ^ 63
           \<longrightarrow> sint (csum mr c)
               = sum_list (map (\<lambda>x. sint (row_price x))
                   (filter (\<lambda>x. row_city x = c) (concat rowss))))
      \<and> (\<forall>c p. sint (pmin mr c p)
            = Min (insert (sint sentinel)
                (sint ` row_price ` {x \<in> set (concat rowss). row_city x = c \<and> row_product x = p})))
      \<and> (\<forall>c p. (\<exists>x\<in>set (concat rowss). row_city x = c \<and> row_product x = p
                    \<and> sint (row_price x) \<le> sint sentinel)
           \<longrightarrow> sint (pmin mr c p)
               = Min (sint ` row_price `
                   {x \<in> set (concat rowss). row_city x = c \<and> row_product x = p}))"
proof -
  let ?rows = "concat rowss"
  from pipeline_succeeds [OF assms] obtain results mr where
    1: "run_jobs mem sched 0 jobs (replicate num_threads Result_init) = Inr results"
    and 2: "merge results = Inr mr" by blast
  from pipeline_represents [OF assms(1) 1 2 assms(2)] have rep: "represents mr ?rows" .
  then have a: "cities mr = row_city ` set ?rows" "products mr = row_product ` set ?rows"
    and s: "\<And>c. csum mr c = rsum ?rows c" and m: "\<And>c p. pmin mr c p = rmin ?rows c p"
    by (simp_all add: represents_def)
  have s1: "\<forall>c. csum mr c = sum_list (map row_price (filter (\<lambda>x. row_city x = c) ?rows))"
    by (simp add: s rsum_def)
  have s2: "\<forall>c. - (2 ^ 63) \<le> sum_list (map (\<lambda>x. sint (row_price x))
                                 (filter (\<lambda>x. row_city x = c) ?rows))
             \<and> sum_list (map (\<lambda>x. sint (row_price x))
                  (filter (\<lambda>x. row_city x = c) ?rows)) < 2 ^ 63
           \<longrightarrow> sint (csum mr c)
               = sum_list (map (\<lambda>x. sint (row_price x))
                   (filter (\<lambda>x. row_city x = c) ?rows))"
    using sint_sum_list [of "map row_price (filter (\<lambda>x. row_city x = c) ?rows)" for c]
    by (simp add: s rsum_def comp_def)
  have m1: "\<forall>c p. sint (pmin mr c p)
            = Min (insert (sint sentinel)
                (sint ` row_price ` {x \<in> set ?rows. row_city x = c \<and> row_product x = p}))"
    by (simp add: m sint_rmin)
  have m2: "\<forall>c p. (\<exists>x\<in>set ?rows. row_city x = c \<and> row_product x = p
                    \<and> sint (row_price x) \<le> sint sentinel)
           \<longrightarrow> sint (pmin mr c p)
               = Min (sint ` row_price ` {x \<in> set ?rows. row_city x = c \<and> row_product x = p})"
  proof (intro allI impI)
    fix c p
    let ?A = "sint ` row_price ` {x \<in> set ?rows. row_city x = c \<and> row_product x = p}"
    assume "\<exists>x\<in>set ?rows. row_city x = c \<and> row_product x = p \<and> sint (row_price x) \<le> sint sentinel"
    then obtain x where x: "x \<in> set ?rows" "row_city x = c" "row_product x = p"
      "sint (row_price x) \<le> sint sentinel" by blast
    then have "sint (row_price x) \<in> ?A" by blast
    moreover have "finite ?A" by simp
    ultimately have "Min (insert (sint sentinel) ?A) = Min ?A"
      using x(4) by (intro Min_insert_above)
    with m1 show "sint (pmin mr c p) = Min ?A" by simp
  qed
  from 1 2 a s1 s2 m1 m2 show ?thesis by blast
qed

theorem merged_aggregate_correct_witness:
  "list_all2 (\<lambda>job rows. chunk_rows roundtrip_mem (fst job) (snd job) = Inr rows)
     [(0, 30), (30, 55)] [take 2 roundtrip_rows, drop 2 roundtrip_rows]
   \<and> capacity (concat [take 2 roundtrip_rows, drop 2 roundtrip_rows]) \<and> (0::nat) < 2
   \<and> (\<exists>results mr.
        run_jobs roundtrip_mem (\<lambda>j. j) 0 [(0, 30), (30, 55)] (replicate 2 Result_init) = Inr results
        \<and> merge results = Inr mr
        \<and> cities mr = {''A'', ''B''} \<and> products mr = {''X'', ''Y''}
        \<and> csum mr ''A'' = 350 \<and> csum mr ''B'' = 150
        \<and> sint (pmin mr ''A'' ''X'') = 150 \<and> sint (pmin mr ''A'' ''Y'') = 200
        \<and> sint (pmin mr ''B'' ''X'') = 50 \<and> pmin mr ''B'' ''Y'' = sentinel)"
proof -
  let ?jobs = "[(0, 30), (30, 55)] :: (nat \<times> nat) list"
  let ?rowss = "[take 2 roundtrip_rows, drop 2 roundtrip_rows]"
  have h1: "list_all2 (\<lambda>job rows. chunk_rows roundtrip_mem (fst job) (snd job) = Inr rows)
     ?jobs ?rowss"
    by (simp add: chunk_rows_roundtrip)
  have h2: "capacity (concat ?rowss)" using capacity_roundtrip by simp
  have h3: "(0::nat) < 2" by simp
  note ex = merged_aggregate_correct [OF h1 h2 h3, of "\<lambda>j. j"]
  from ex obtain results where "\<exists>mr.
      run_jobs roundtrip_mem (\<lambda>j. j) 0 ?jobs (replicate 2 Result_init) = Inr results
      \<and> merge results = Inr mr
      \<and> cities mr = row_city ` set (concat ?rowss)
      \<and> products mr = row_product ` set (concat ?rowss)
      \<and> (\<forall>c. csum mr c
            = sum_list (map row_price (filter (\<lambda>x. row_city x = c) (concat ?rowss))))
      \<and> (\<forall>c. - (2 ^ 63) \<le> sum_list (map (\<lambda>x. sint (row_price x))
                                 (filter (\<lambda>x. row_city x = c) (concat ?rowss)))
             \<and> sum_list (map (\<lambda>x. sint (row_price x))
                  (filter (\<lambda>x. row_city x = c) (concat ?rowss))) < 2 ^ 63
           \<longrightarrow> sint (csum mr c)
               = sum_list (map (\<lambda>x. sint (row_price x))
                   (filter (\<lambda>x. row_city x = c) (concat ?rowss))))
      \<and> (\<forall>c p. sint (pmin mr c p)
            = Min (insert (sint sentinel)
                (sint ` row_price ` {x \<in> set (concat ?rowss). row_city x = c \<and> row_product x = p})))
      \<and> (\<forall>c p. (\<exists>x\<in>set (concat ?rowss). row_city x = c \<and> row_product x = p
                    \<and> sint (row_price x) \<le> sint sentinel)
           \<longrightarrow> sint (pmin mr c p)
               = Min (sint ` row_price `
                   {x \<in> set (concat ?rowss). row_city x = c \<and> row_product x = p}))"
    by (rule exE)
  then obtain mr where big:
     "run_jobs roundtrip_mem (\<lambda>j. j) 0 ?jobs (replicate 2 Result_init) = Inr results
      \<and> merge results = Inr mr
      \<and> cities mr = row_city ` set (concat ?rowss)
      \<and> products mr = row_product ` set (concat ?rowss)
      \<and> (\<forall>c. csum mr c
            = sum_list (map row_price (filter (\<lambda>x. row_city x = c) (concat ?rowss))))
      \<and> (\<forall>c. - (2 ^ 63) \<le> sum_list (map (\<lambda>x. sint (row_price x))
                                 (filter (\<lambda>x. row_city x = c) (concat ?rowss)))
             \<and> sum_list (map (\<lambda>x. sint (row_price x))
                  (filter (\<lambda>x. row_city x = c) (concat ?rowss))) < 2 ^ 63
           \<longrightarrow> sint (csum mr c)
               = sum_list (map (\<lambda>x. sint (row_price x))
                   (filter (\<lambda>x. row_city x = c) (concat ?rowss))))
      \<and> (\<forall>c p. sint (pmin mr c p)
            = Min (insert (sint sentinel)
                (sint ` row_price ` {x \<in> set (concat ?rowss). row_city x = c \<and> row_product x = p})))
      \<and> (\<forall>c p. (\<exists>x\<in>set (concat ?rowss). row_city x = c \<and> row_product x = p
                    \<and> sint (row_price x) \<le> sint sentinel)
           \<longrightarrow> sint (pmin mr c p)
               = Min (sint ` row_price `
                   {x \<in> set (concat ?rowss). row_city x = c \<and> row_product x = p}))"
    by (rule exE)
  note r1 = big [THEN conjunct1]
  note r2 = big [THEN conjunct2, THEN conjunct1]
  note r3 = big [THEN conjunct2, THEN conjunct2, THEN conjunct1]
  note r4 = big [THEN conjunct2, THEN conjunct2, THEN conjunct2, THEN conjunct1]
  note s = big [THEN conjunct2, THEN conjunct2, THEN conjunct2, THEN conjunct2, THEN conjunct1,
      rule_format]
  note m = big [THEN conjunct2, THEN conjunct2, THEN conjunct2, THEN conjunct2, THEN conjunct2,
      THEN conjunct2, THEN conjunct1, rule_format]
  have rows: "concat ?rowss = roundtrip_rows" by simp
  have 1: "cities mr = {''A'', ''B''}" "products mr = {''X'', ''Y''}"
    by (auto simp: r3 r4 rows roundtrip_rows_def row_city_def row_product_def)
  have 2: "csum mr ''A'' = 350" "csum mr ''B'' = 150"
    by (simp_all add: s rows roundtrip_rows_def row_city_def row_price_def)
  have set_eq: "{x \<in> set roundtrip_rows. row_city x = c \<and> row_product x = p}
      = set (filter (\<lambda>x. row_city x = c \<and> row_product x = p) roundtrip_rows)" for c p
    by auto
  have 3: "sint (pmin mr ''A'' ''X'') = 150" "sint (pmin mr ''A'' ''Y'') = 200"
     "sint (pmin mr ''B'' ''X'') = 50" "sint (pmin mr ''B'' ''Y'') = sint sentinel"
    unfolding m rows set_eq
    by (simp_all add: roundtrip_rows_def row_city_def row_product_def row_price_def sentinel_def)
  from 3(4) have 4: "pmin mr ''B'' ''Y'' = sentinel" by (rule word_eq_sint)
  have "\<exists>results mr.
        run_jobs roundtrip_mem (\<lambda>j. j) 0 [(0, 30), (30, 55)] (replicate 2 Result_init) = Inr results
        \<and> merge results = Inr mr
        \<and> cities mr = {''A'', ''B''} \<and> products mr = {''X'', ''Y''}
        \<and> csum mr ''A'' = 350 \<and> csum mr ''B'' = 150
        \<and> sint (pmin mr ''A'' ''X'') = 150 \<and> sint (pmin mr ''A'' ''Y'') = 200
        \<and> sint (pmin mr ''B'' ''X'') = 50 \<and> pmin mr ''B'' ''Y'' = sentinel"
    using r1 r2 1 2 3(1-3) 4 by (intro exI [of _ results] exI [of _ mr] conjI)
  with h1 h2 h3 show ?thesis by (intro conjI)
qed

section \<open>Claims on the report\<close>

lemma represents_below_sentinel:
  "represents r rows \<Longrightarrow> below_sentinel r \<longleftrightarrow> has_winner rows"
  by (simp add: represents_def below_sentinel_def has_winner_def)

lemma represents_same:
  assumes "represents r1 rows" and "represents r2 rows" and "has_winner rows"
  shows "ans r1 = ans r2"
proof -
  from assms(1,3) have "below_sentinel r1" by (simp add: represents_below_sentinel)
  with assms(1,2) show ?thesis by (intro ans_cong) (simp_all add: represents_def)
qed

lemma same_rows_same_report:
  assumes "list_all2 (\<lambda>job rows. chunk_rows mem (fst job) (snd job) = Inr rows) jobs1 rowss1"
    and "list_all2 (\<lambda>job rows. chunk_rows mem (fst job) (snd job) = Inr rows) jobs2 rowss2"
    and "mset (concat rowss1) = mset (concat rowss2)"
    and "capacity (concat rowss1)" and "has_winner (concat rowss1)"
    and "0 < n1" and "0 < n2"
  shows "\<exists>rep results1 mr1 results2 mr2.
           report_of_jobs mem n1 sched1 jobs1 = Inr rep
           \<and> report_of_jobs mem n2 sched2 jobs2 = Inr rep
           \<and> run_jobs mem sched1 0 jobs1 (replicate n1 Result_init) = Inr results1
           \<and> merge results1 = Inr mr1
           \<and> run_jobs mem sched2 0 jobs2 (replicate n2 Result_init) = Inr results2
           \<and> merge results2 = Inr mr2
           \<and> cities mr1 = cities mr2 \<and> products mr1 = products mr2
           \<and> (\<forall>c. csum mr1 c = csum mr2 c) \<and> (\<forall>c p. pmin mr1 c p = pmin mr2 c p)"
proof -
  from pipeline_succeeds [OF assms(1,4,6)] obtain results1 mr1 where
    1: "run_jobs mem sched1 0 jobs1 (replicate n1 Result_init) = Inr results1"
    and 2: "merge results1 = Inr mr1" by blast
  from pipeline_represents [OF assms(1) 1 2 assms(4)] have rep1: "represents mr1 (concat rowss1)" .
  from assms(4) have cap2: "capacity (concat rowss2)" using assms(3) by (rule capacity_mset)
  from pipeline_succeeds [OF assms(2) cap2 assms(7)] obtain results2 mr2 where
    4: "run_jobs mem sched2 0 jobs2 (replicate n2 Result_init) = Inr results2"
    and 5: "merge results2 = Inr mr2" by blast
  from pipeline_represents [OF assms(2) 4 5 cap2] have "represents mr2 (concat rowss2)" .
  then have rep2: "represents mr2 (concat rowss1)"
    using assms(3) [symmetric] by (rule represents_mset)
  from rep1 have wf: "well_formed mr1" by (simp add: represents_def)
  from rep1 assms(5) have "below_sentinel mr1" by (simp add: represents_below_sentinel)
  from ans_with_city [OF wf this] obtain rep where 3: "ans mr1 = Inr rep" by blast
  from represents_same [OF rep2 rep1 assms(5)] 3 have "ans mr2 = Inr rep" by simp
  with 4 5 have a2: "report_of_jobs mem n2 sched2 jobs2 = Inr rep"
    by (simp add: report_of_jobs_def)
  from 1 2 3 have a1: "report_of_jobs mem n1 sched1 jobs1 = Inr rep"
    by (simp add: report_of_jobs_def)
  have b: "cities mr1 = cities mr2" "products mr1 = products mr2"
    "\<forall>c. csum mr1 c = csum mr2 c" "\<forall>c p. pmin mr1 c p = pmin mr2 c p"
    using rep1 rep2 by (simp_all add: represents_def)
  show ?thesis
    using a1 a2 1 2 4 5 b
    by (intro exI [of _ rep] exI [of _ results1] exI [of _ mr1] exI [of _ results2]
        exI [of _ mr2] conjI)
qed

lemma no_winner_reports:
  "report_of_rows [[(''A'', ''X'', 5000000000000000000)], [(''B'', ''X'', 6000000000000000000)]]
   = Inr [([], 4000000000000000000), (''X'', 5000000000000000000),
          ([], 0), ([], 0), ([], 0), ([], 0)]"
  "report_of_rows [[(''B'', ''X'', 6000000000000000000)], [(''A'', ''X'', 5000000000000000000)]]
   = Inr [([], 4000000000000000000), (''X'', 6000000000000000000),
          ([], 0), ([], 0), ([], 0), ([], 0)]"
  by (code_simp, code_simp)

text \<open>
  Claim C9, as stated, fails in two ways. With the 103 products, the same rows give
  one report as a single chunk and another one as two chunks with the chunk of
  city B in the first slot: in the first run the price 1.00 of A and z2 lands in
  the cell of B and a0, in the second run \<^verbatim>\<open>product_cost[0][102]\<close>, which \<open>ans\<close> reads
  for B and z2, is the cell of A and a0. (The lines of a0, with 100 in the first
  report and 500 in the second, do not depend on the order in which \<open>merge\<close> walks
  the tables of a slot; the other product lines do.) And when no city has a total
  below 4000000000000000000 hundredths, \<open>ans\<close> prints for a product the total of the
  city that has the same identifier, which is the city of the first slot here.
\<close>

theorem report_depends_on_chunking_counterexample:
  "mset (concat [overflow_rows_A @ overflow_rows_B])
     = mset (concat [overflow_rows_B, overflow_rows_A])
   \<and> report_of_rows [overflow_rows_A @ overflow_rows_B]
       = Inr [(''B'', 500), (''a0'', 100), (''a1'', 4000000000000000000),
              (''a2'', 4000000000000000000), (''a3'', 4000000000000000000),
              (''b0'', 4000000000000000000)]
   \<and> report_of_rows [overflow_rows_B, overflow_rows_A]
       = Inr [(''B'', 500), (''z2'', 100), (''a0'', 500), (''a1'', 4000000000000000000),
              (''a2'', 4000000000000000000), (''a3'', 4000000000000000000)]
   \<and> report_of_rows
         [[(''A'', ''X'', 5000000000000000000)], [(''B'', ''X'', 6000000000000000000)]]
       = Inr [([], 4000000000000000000), (''X'', 5000000000000000000),
              ([], 0), ([], 0), ([], 0), ([], 0)]
   \<and> report_of_rows
         [[(''B'', ''X'', 6000000000000000000)], [(''A'', ''X'', 5000000000000000000)]]
       = Inr [([], 4000000000000000000), (''X'', 6000000000000000000),
              ([], 0), ([], 0), ([], 0), ([], 0)]"
proof -
  have 1: "mset (concat [overflow_rows_A @ overflow_rows_B])
      = mset (concat [overflow_rows_B, overflow_rows_A])"
    by simp
  have 2: "report_of_rows [overflow_rows_A @ overflow_rows_B]
       = Inr [(''B'', 500), (''a0'', 100), (''a1'', 4000000000000000000),
              (''a2'', 4000000000000000000), (''a3'', 4000000000000000000),
              (''b0'', 4000000000000000000)]"
    using overflow_single
    by (cases "aggregate_of_rows [overflow_rows_A @ overflow_rows_B]")
       (simp_all add: report_of_rows_def)
  from 1 2 overflow_swapped no_winner_reports show ?thesis by (intro conjI)
qed

text \<open>
  Claim C9, amended. Take two ways of cutting the same mapped memory into chunks
  whose rows, taken together, are the same records (the same multiset: every
  record decoded as often on one side as on the other), any numbers of threads
  above 0 and any assignments of the jobs to the slots of the pool; an assignment
  is arbitrary, so every renumbering of the slots, and with it every order in
  which \<open>merge\<close> visits them, is covered. If the records name at most
  \<^verbatim>\<open>NUM_CITIES\<close> cities and at most \<^verbatim>\<open>NUM_CITIES\<close> products, and some city has a total
  below 4000000000000000000 hundredths, then both runs print a report, the two
  reports are the same, and the two merged aggregates hold the same cities and
  products, the same sum for every city and the same minimum for every city and
  product.
\<close>

theorem report_independent_of_chunking:
  assumes "list_all2 (\<lambda>job rows. chunk_rows mem (fst job) (snd job) = Inr rows) jobs1 rowss1"
    and "list_all2 (\<lambda>job rows. chunk_rows mem (fst job) (snd job) = Inr rows) jobs2 rowss2"
    and "mset (concat rowss1) = mset (concat rowss2)"
    and "capacity (concat rowss1)" and "has_winner (concat rowss1)"
    and "0 < n1" and "0 < n2"
  shows "\<exists>rep results1 mr1 results2 mr2.
           report_of_jobs mem n1 sched1 jobs1 = Inr rep
           \<and> report_of_jobs mem n2 sched2 jobs2 = Inr rep
           \<and> run_jobs mem sched1 0 jobs1 (replicate n1 Result_init) = Inr results1
           \<and> merge results1 = Inr mr1
           \<and> run_jobs mem sched2 0 jobs2 (replicate n2 Result_init) = Inr results2
           \<and> merge results2 = Inr mr2
           \<and> cities mr1 = cities mr2 \<and> products mr1 = products mr2
           \<and> (\<forall>c. csum mr1 c = csum mr2 c) \<and> (\<forall>c p. pmin mr1 c p = pmin mr2 c p)"
  using same_rows_same_report [OF assms] .


lemmas aggregate_simps =
  process_rows_def row_city_def row_product_def row_price_def
  process_record_def find_or_create_def in_arrays_def city_cost_at_def product_cost_at_def
  load_def store_def NUM_CITIES_def Result_init_def smin_def
  sentinel_def merge_def merge_result_def merge_city_def merge_product_def

lemmas ans_simps =
  ans_def ans_city_def ans_product_def resize5_def in_arrays_def city_cost_at_def
  product_cost_at_def load_def NUM_CITIES_def sentinel_def replicate_num

lemma process_rows_roundtrip:
  "process_rows roundtrip_rows Result_init = Inr roundtrip_result"
  by (simp add: aggregate_simps roundtrip_rows_def roundtrip_result_def)

lemma merge_roundtrip: "merge [roundtrip_result] = Inr roundtrip_result"
  by (simp add: aggregate_simps roundtrip_result_def fun_eq_iff)

lemma ans_roundtrip: "ans roundtrip_result = Inr roundtrip_report"
  by (simp add: ans_simps roundtrip_result_def roundtrip_report_def)

lemma represents_roundtrip: "represents roundtrip_result roundtrip_rows"
  using process_rows_represents [OF represents_init process_rows_roundtrip] capacity_roundtrip
  by simp

lemma has_winner_roundtrip: "has_winner roundtrip_rows"
  by (simp add: has_winner_def rsum_def roundtrip_rows_def row_city_def row_price_def sentinel_def)

lemma process_chunk_roundtrip:
  "process_chunk roundtrip_mem Result_init 0 55 = Inr roundtrip_result"
  by (simp add: process_chunk_rows [OF chunk_rows_roundtrip(1)] process_rows_roundtrip)

lemma report_of_jobs_roundtrip:
  "report_of_jobs roundtrip_mem 1 (\<lambda>j. 0) [(0, 55)] = Inr roundtrip_report"
  by (simp add: report_of_jobs_def process_chunk_roundtrip merge_roundtrip ans_roundtrip)

theorem report_independent_of_chunking_witness:
  "list_all2 (\<lambda>job rows. chunk_rows roundtrip_mem (fst job) (snd job) = Inr rows)
     [(0, 55)] [roundtrip_rows]
   \<and> list_all2 (\<lambda>job rows. chunk_rows roundtrip_mem (fst job) (snd job) = Inr rows)
     [(30, 55), (0, 30)] [drop 2 roundtrip_rows, take 2 roundtrip_rows]
   \<and> mset (concat [roundtrip_rows]) = mset (concat [drop 2 roundtrip_rows, take 2 roundtrip_rows])
   \<and> capacity (concat [roundtrip_rows]) \<and> has_winner (concat [roundtrip_rows])
   \<and> (0::nat) < 1 \<and> (0::nat) < 3
   \<and> report_of_jobs roundtrip_mem 1 (\<lambda>j. 0) [(0, 55)] = Inr roundtrip_report
   \<and> report_of_jobs roundtrip_mem 3 (\<lambda>j. j + 1) [(30, 55), (0, 30)] = Inr roundtrip_report"
proof -
  have h1: "list_all2 (\<lambda>job rows. chunk_rows roundtrip_mem (fst job) (snd job) = Inr rows)
     [(0, 55)] [roundtrip_rows]"
    by (simp add: chunk_rows_roundtrip)
  have h2: "list_all2 (\<lambda>job rows. chunk_rows roundtrip_mem (fst job) (snd job) = Inr rows)
     [(30, 55), (0, 30)] [drop 2 roundtrip_rows, take 2 roundtrip_rows]"
    by (simp add: chunk_rows_roundtrip)
  have h3: "mset (concat [roundtrip_rows])
      = mset (concat [drop 2 roundtrip_rows, take 2 roundtrip_rows])"
    by (simp add: roundtrip_rows_def)
  have h4: "capacity (concat [roundtrip_rows])" using capacity_roundtrip by simp
  have h5: "has_winner (concat [roundtrip_rows])" using has_winner_roundtrip by simp
  have h6: "(0::nat) < 1" and h7: "(0::nat) < 3" by simp_all
  from report_independent_of_chunking [OF h1 h2 h3 h4 h5 h6 h7, of "\<lambda>j. 0" "\<lambda>j. j + 1"]
  obtain rep where "report_of_jobs roundtrip_mem 1 (\<lambda>j. 0) [(0, 55)] = Inr rep"
    and "report_of_jobs roundtrip_mem 3 (\<lambda>j. j + 1) [(30, 55), (0, 30)] = Inr rep"
    by blast
  with report_of_jobs_roundtrip
  have "report_of_jobs roundtrip_mem 3 (\<lambda>j. j + 1) [(30, 55), (0, 30)] = Inr roundtrip_report"
    by simp
  with h1 h2 h3 h4 h5 h6 h7 report_of_jobs_roundtrip show ?thesis by (intro conjI)
qed

lemma product_lines_sorted: "sorted (product_lines r w)"
  by (simp add: product_lines_def)

lemma product_lines_length: "length (product_lines r w) = length (product_id r)"
  by (simp add: product_lines_def)

lemma product_lines_set:
  "set (product_lines r w) = (\<lambda>p. (sint (pmin r w p), p)) ` products r"
  by (simp add: product_lines_def products_def image_image)

lemma product_lines_mset:
  assumes "well_formed r"
  shows "mset (product_lines r w) = image_mset (\<lambda>p. (sint (pmin r w p), p)) (mset_set (products r))"
proof -
  from assms have "distinct (map fst (product_id r))" by (simp add: well_formed_def dict_ok_def)
  then have "mset_set (set (map fst (product_id r))) = mset (map fst (product_id r))"
    by (rule mset_set_set)
  then have eq: "mset_set (products r) = mset (map fst (product_id r))"
    by (simp add: products_def)
  have "mset (product_lines r w)
      = image_mset (\<lambda>p. (sint (pmin r w p), p)) (mset (map fst (product_id r)))"
    by (simp only: product_lines_def mset_sort mset_map)
  then show ?thesis by (simp only: eq)
qed

lemma map_resize5:
  "map (\<lambda>p. (snd p, fst p)) (resize5 ps)
     = map (\<lambda>p. (snd p, fst p)) (take 5 ps) @ replicate (5 - length ps) ([], 0)"
  by (simp add: resize5_def)







lemma resize5_length: "length (resize5 ps) = 5"
  by (simp add: resize5_def)

lemma resize5_padding: "length ps \<le> k \<Longrightarrow> k < 5 \<Longrightarrow> resize5 ps ! k = (0, [])"
  by (simp add: resize5_def nth_append)

lemma resize5_entry: "k < length ps \<Longrightarrow> k < 5 \<Longrightarrow> resize5 ps ! k = ps ! k"
  by (simp add: resize5_def nth_append)

lemma rmin_no_row:
  "\<not> (\<exists>x\<in>set rows. row_city x = c \<and> row_product x = p) \<Longrightarrow> rmin rows c p = sentinel"
proof -
  assume "\<not> (\<exists>x\<in>set rows. row_city x = c \<and> row_product x = p)"
  then have "filter (\<lambda>x. row_city x = c \<and> row_product x = p) rows = []"
    by (simp add: filter_empty_conv)
  then show ?thesis by (simp add: rmin_def)
qed

lemma dict_length_card: "well_formed r \<Longrightarrow> length (product_id r) = card (products r)"
  using dict_ok_card [of "product_id r"] by (simp add: well_formed_def products_def)

text \<open>
  Claim C3, amended. For every aggregate \<open>r\<close> of rows that name at most
  \<^verbatim>\<open>NUM_CITIES\<close> cities and products, \<open>ans\<close> prints one city line and exactly five
  product lines, whatever the number of products of the winning city. The
  product lines are the first five entries of a list \<open>ps\<close> of pairs of price and
  name, sorted in ascending order (by price, and by name among equal prices),
  with one entry for every product of the rows, of whichever city; when the rows
  name fewer than five products, lines with an empty name and the price 0 fill
  the report up to five. When some city has a total below 4000000000000000000
  hundredths, the city line names a city \<open>w\<close> of the rows, and the price of a
  product in \<open>ps\<close> is the least of 4000000000000000000 and the prices of the rows
  of \<open>w\<close> with that product, hence 4000000000000000000 for a product that no row
  of \<open>w\<close> names. When no city has such a total, the city line has the empty name
  and the total 4000000000000000000, and the product with the identifier \<open>j\<close>
  comes with the cell \<open>j\<close> of \<^verbatim>\<open>city_cost\<close>.
\<close>

theorem ans_always_five_product_lines:
  assumes "represents r rows"
  shows "\<exists>w total ps.
      ans r = Inr ((w, total) #
                map (\<lambda>p. (snd p, fst p)) (take 5 ps) @ replicate (5 - length ps) ([], 0))
      \<and> length (map (\<lambda>p. (snd p, fst p)) (take 5 ps) @ replicate (5 - length ps) ([], 0)) = 5
      \<and> length ps = card (row_product ` set rows)
      \<and> sorted ps
      \<and> (has_winner rows \<longrightarrow>
           w \<in> row_city ` set rows
           \<and> total = sint (sum_list (map row_price (filter (\<lambda>x. row_city x = w) rows)))
           \<and> mset ps = image_mset
                (\<lambda>p. (Min (insert (sint sentinel)
                         (sint ` row_price ` {x \<in> set rows. row_city x = w \<and> row_product x = p})),
                       p))
                (mset_set (row_product ` set rows)))
      \<and> (\<not> has_winner rows \<longrightarrow>
           w = [] \<and> total = sint sentinel
           \<and> mset ps = mset (map (\<lambda>e. (sint (city_cost r (snd e)), fst e)) (product_id r)))"
proof -
  from assms have wf: "well_formed r" and pr: "products r = row_product ` set rows"
    and ci: "cities r = row_city ` set rows"
    and pm: "\<And>c p. pmin r c p = rmin rows c p"
    and cs: "\<And>c. csum r c = rsum rows c"
    by (simp_all add: represents_def)
  have five: "length (map (\<lambda>p. (snd p, fst p)) (take 5 ps) @ replicate (5 - length ps) ([], 0)) = 5"
    for ps :: "(int \<times> string) list"
    by simp
  show ?thesis
  proof (cases "has_winner rows")
    case True
    then have "below_sentinel r" using assms by (simp add: represents_below_sentinel)
    from ans_with_city [OF wf this] obtain w where
      1: "ans r = Inr ((w, sint (csum r w)) #
            map (\<lambda>p. (snd p, fst p)) (resize5 (product_lines r w)))"
      and 2: "w \<in> cities r" by blast
    let ?ps = "product_lines r w"
    have a: "ans r = Inr ((w, sint (csum r w)) #
                map (\<lambda>p. (snd p, fst p)) (take 5 ?ps) @ replicate (5 - length ?ps) ([], 0))"
      using 1 by (simp only: map_resize5)
    have b: "length ?ps = card (row_product ` set rows)"
      by (simp add: product_lines_length dict_length_card [OF wf] pr)
    have c: "mset ?ps = image_mset
                (\<lambda>p. (Min (insert (sint sentinel)
                         (sint ` row_price ` {x \<in> set rows. row_city x = w \<and> row_product x = p})),
                       p))
                (mset_set (row_product ` set rows))"
      using product_lines_mset [OF wf, of w] by (simp add: pm pr sint_rmin)
    have d: "sint (csum r w) = sint (sum_list (map row_price (filter (\<lambda>x. row_city x = w) rows)))"
      by (simp add: cs rsum_def)
    from a five [of ?ps] b product_lines_sorted [of r w] 2 c d True show ?thesis
      by (intro exI [of _ w] exI [of _ "sint (csum r w)"] exI [of _ ?ps] conjI impI)
         (simp_all add: ci)
  next
    case False
    then have "\<not> below_sentinel r" using assms by (simp add: represents_below_sentinel)
    from ans_without_city [OF wf this]
    have 1: "ans r = Inr (([], sint sentinel) #
        map (\<lambda>p. (snd p, fst p)) (resize5 (stray_lines r)))" .
    let ?ps = "stray_lines r"
    have a: "ans r = Inr (([], sint sentinel) #
                map (\<lambda>p. (snd p, fst p)) (take 5 ?ps) @ replicate (5 - length ?ps) ([], 0))"
      using 1 by (simp only: map_resize5)
    have b: "length ?ps = card (row_product ` set rows)"
      by (simp add: stray_lines_def dict_length_card [OF wf] pr)
    have c: "sorted ?ps" by (simp add: stray_lines_def)
    have d: "mset ?ps = mset (map (\<lambda>e. (sint (city_cost r (snd e)), fst e)) (product_id r))"
      by (simp add: stray_lines_def)
    from a five [of ?ps] b c d False show ?thesis
      by (intro exI [of _ "[]"] exI [of _ "sint sentinel"] exI [of _ ?ps] conjI impI)
         simp_all
  qed
qed

lemma process_rows_costly: "process_rows costly_rows Result_init = Inr costly_result"
  by (simp add: aggregate_simps costly_rows_def costly_result_def fun_eq_iff)

lemma ans_costly:
  "ans costly_result
     = Inr [([], 4000000000000000000), (''X'', 6000000000000000000),
            ([], 0), ([], 0), ([], 0), ([], 0)]"
  by (simp add: ans_simps costly_result_def)

lemma not_has_winner_costly: "\<not> has_winner costly_rows"
  by (simp add: has_winner_def rsum_def costly_rows_def row_city_def row_price_def sentinel_def)

lemma capacity_costly: "capacity costly_rows"
  by (rule capacity_short) (simp add: costly_rows_def NUM_CITIES_def)

lemma represents_costly: "represents costly_result costly_rows"
  using process_rows_represents [OF represents_init process_rows_costly] capacity_costly
  by simp

theorem ans_always_five_product_lines_witness:
  "represents roundtrip_result roundtrip_rows \<and> has_winner roundtrip_rows
   \<and> ans roundtrip_result = Inr roundtrip_report
   \<and> represents costly_result costly_rows \<and> \<not> has_winner costly_rows
   \<and> ans costly_result
       = Inr [([], 4000000000000000000), (''X'', 6000000000000000000),
              ([], 0), ([], 0), ([], 0), ([], 0)]
   \<and> (\<exists>w total ps.
        ans roundtrip_result = Inr ((w, total) #
                map (\<lambda>p. (snd p, fst p)) (take 5 ps) @ replicate (5 - length ps) ([], 0))
        \<and> length ps = card (row_product ` set roundtrip_rows)
        \<and> sorted ps
        \<and> w \<in> row_city ` set roundtrip_rows
        \<and> total = sint (sum_list (map row_price (filter (\<lambda>x. row_city x = w) roundtrip_rows)))
        \<and> mset ps = image_mset
                (\<lambda>p. (Min (insert (sint sentinel)
                         (sint ` row_price `
                            {x \<in> set roundtrip_rows. row_city x = w \<and> row_product x = p})),
                       p))
                (mset_set (row_product ` set roundtrip_rows)))
   \<and> (\<exists>ps.
        ans costly_result = Inr (([], sint sentinel) #
                map (\<lambda>p. (snd p, fst p)) (take 5 ps) @ replicate (5 - length ps) ([], 0))
        \<and> length ps = card (row_product ` set costly_rows)
        \<and> sorted ps
        \<and> mset ps = mset (map (\<lambda>e. (sint (city_cost costly_result (snd e)), fst e))
                           (product_id costly_result)))"
proof -
  note h1 = represents_roundtrip and h2 = has_winner_roundtrip
  note h3 = represents_costly and h4 = not_has_winner_costly
  from ans_always_five_product_lines [OF h1] h2 have a: "\<exists>w total ps.
        ans roundtrip_result = Inr ((w, total) #
                map (\<lambda>p. (snd p, fst p)) (take 5 ps) @ replicate (5 - length ps) ([], 0))
        \<and> length ps = card (row_product ` set roundtrip_rows)
        \<and> sorted ps
        \<and> w \<in> row_city ` set roundtrip_rows
        \<and> total = sint (sum_list (map row_price (filter (\<lambda>x. row_city x = w) roundtrip_rows)))
        \<and> mset ps = image_mset
                (\<lambda>p. (Min (insert (sint sentinel)
                         (sint ` row_price `
                            {x \<in> set roundtrip_rows. row_city x = w \<and> row_product x = p})),
                       p))
                (mset_set (row_product ` set roundtrip_rows))"
    by blast
  from ans_always_five_product_lines [OF h3] obtain w total ps where
    x: "ans costly_result = Inr ((w, total) #
                map (\<lambda>p. (snd p, fst p)) (take 5 ps) @ replicate (5 - length ps) ([], 0))"
      "length ps = card (row_product ` set costly_rows)" "sorted ps"
    and y: "\<not> has_winner costly_rows \<longrightarrow>
           w = [] \<and> total = sint sentinel
           \<and> mset ps = mset (map (\<lambda>e. (sint (city_cost costly_result (snd e)), fst e))
                              (product_id costly_result))"
    by blast
  from y h4 have z: "w = []" "total = sint sentinel"
    "mset ps = mset (map (\<lambda>e. (sint (city_cost costly_result (snd e)), fst e))
                              (product_id costly_result))"
    by blast+
  from x(1) have x1: "ans costly_result = Inr (([], sint sentinel) #
                map (\<lambda>p. (snd p, fst p)) (take 5 ps) @ replicate (5 - length ps) ([], 0))"
    by (simp only: z(1,2))
  from x1 x(2,3) z(3) have b: "\<exists>ps.
        ans costly_result = Inr (([], sint sentinel) #
                map (\<lambda>p. (snd p, fst p)) (take 5 ps) @ replicate (5 - length ps) ([], 0))
        \<and> length ps = card (row_product ` set costly_rows)
        \<and> sorted ps
        \<and> mset ps = mset (map (\<lambda>e. (sint (city_cost costly_result (snd e)), fst e))
                           (product_id costly_result))"
    by (intro exI [of _ ps] conjI)
  from h1 h2 ans_roundtrip h3 h4 ans_costly a b show ?thesis by (intro conjI)
qed

text \<open>
  Claim C3, as stated, fails: the four records of the round-trip input, decoded as
  one chunk, give the winning city B with the single product X, and the report
  has five product lines behind the city line: X with 50, Y (a product of city A
  only) with 4000000000000000000, and three lines with an empty name and 0.
\<close>

theorem ans_five_product_lines_counterexample:
  "chunk_rows roundtrip_mem 0 55 = Inr roundtrip_rows
   \<and> set (map row_product (filter (\<lambda>x. row_city x = ''B'') roundtrip_rows)) = {''X''}
   \<and> report_of_jobs roundtrip_mem 1 (\<lambda>j. 0) [(0, 55)]
       = Inr [(''B'', 150), (''X'', 50), (''Y'', 4000000000000000000), ([], 0), ([], 0), ([], 0)]"
proof -
  have "set (map row_product (filter (\<lambda>x. row_city x = ''B'') roundtrip_rows)) = {''X''}"
    by (simp add: roundtrip_rows_def row_city_def row_product_def)
  with chunk_rows_roundtrip(1) report_of_jobs_roundtrip show ?thesis
    by (simp add: roundtrip_report_def)
qed

section \<open>Records on a chunk boundary\<close>

lemma starts_loop_range:
  "starts_loop mem cur chunk_end = Inr ps \<Longrightarrow> \<forall>p\<in>set ps. cur \<le> p \<and> p < chunk_end"
proof (induction mem cur chunk_end arbitrary: ps rule: starts_loop.induct)
  case (1 mem cur chunk_end)
  show ?case
  proof (cases "cur < chunk_end")
    case False
    with "1.prems" show ?thesis by (subst (asm) starts_loop.simps) simp
  next
    case True
    with "1.prems" obtain cur' city product price rest where
      c: "consume_record mem cur = Inr (cur', city, product, price)"
      and d: "starts_loop mem cur' chunk_end = Inr rest" and ps: "ps = cur # rest"
      by (subst (asm) starts_loop.simps) (auto split: sum.splits prod.splits)
    from "1.IH" [OF True c refl refl refl d] have "\<forall>p\<in>set rest. cur' \<le> p \<and> p < chunk_end" .
    moreover from c have "cur < cur'" by (rule consume_record_forward)
    ultimately show ?thesis using True by (auto simp: ps)
  qed
qed

lemma rawmemchr_forward: "rawmemchr mem start c = Inr q \<Longrightarrow> start \<le> q"
proof (induction mem start c rule: rawmemchr.induct)
  case (1 mem start c)
  show ?case
  proof (cases "start < length mem \<and> mem ! start \<noteq> c")
    case True
    with "1.prems" have "rawmemchr mem (start + 1) c = Inr q"
      by (subst (asm) rawmemchr.simps) simp
    with True "1.IH" have "start + 1 \<le> q" by simp
    then show ?thesis by simp
  next
    case False
    with "1.prems" show ?thesis
      by (subst (asm) rawmemchr.simps) (auto split: if_splits)
  qed
qed

text \<open>
  A record whose first byte stands exactly on the boundary \<open>b\<close> between two chunks is
  decoded by neither of them, in any mapped memory, for any block size: the chunk
  that ends at \<open>b\<close> stops when its cursor reaches \<open>b\<close>, and the chunk that starts at
  \<open>b\<close> finds a byte that is no newline there and realigns to the newline that ends
  this record.
\<close>

lemma boundary_record_skipped:
  assumes "chunk_starts mem a b = Inr ps1" and "chunk_starts mem b e = Inr ps2"
    and "mem ! b \<noteq> newline"
  shows "b \<notin> set ps1 \<and> b \<notin> set ps2"
proof -
  from assms(1) obtain q1 where "starts_loop mem (q1 + 1) b = Inr ps1"
    by (auto simp: chunk_starts_def split: if_splits sum.splits)
  from starts_loop_range [OF this] have 1: "b \<notin> set ps1" by auto
  from assms(2,3) obtain q2 where q2: "rawmemchr mem b newline = Inr q2"
    and l2: "starts_loop mem (q2 + 1) e = Inr ps2"
    by (auto simp: chunk_starts_def split: if_splits sum.splits)
  from rawmemchr_forward [OF q2] starts_loop_range [OF l2] have 2: "b \<notin> set ps2" by auto
  from 1 2 show ?thesis ..
qed

text \<open>The jobs that \<open>process_concurrently\<close> queues, in closed form: every multiple of
  the block size below the last one is the end of one job and the start of the
  next.\<close>

lemma chunk_jobs_eq:
  assumes "cnt * block_size \<le> fsize"
  shows "chunk_jobs fsize cnt i
     = map (\<lambda>k. (k * block_size, if k + 1 = cnt then fsize else (k + 1) * block_size)) [i..<cnt]"
  using assms
proof (induction fsize cnt i rule: chunk_jobs.induct)
  case (1 fsize cnt i)
  show ?case
  proof (cases "i < cnt")
    case False
    then show ?thesis by (subst chunk_jobs.simps) simp
  next
    case True
    let ?ce = "if i + 1 = cnt then fsize else (i + 1) * block_size"
    have "(i + 1) * block_size \<le> cnt * block_size"
      using True by (intro mult_le_mono1) simp
    then have "(i + 1) * block_size \<le> fsize" using "1.prems" by (rule le_trans)
    then have lt: "i * block_size < ?ce" by (simp add: block_size_value)
    from "1.IH" [OF True refl refl] lt "1.prems"
    have rest: "chunk_jobs fsize cnt (i + 1)
      = map (\<lambda>k. (k * block_size, if k + 1 = cnt then fsize else (k + 1) * block_size))
          [i + 1..<cnt]"
      by simp
    have "chunk_jobs fsize cnt i = (i * block_size, ?ce) # chunk_jobs fsize cnt (i + 1)"
      using True lt by (subst chunk_jobs.simps) (simp add: Let_def)
    with rest True show ?thesis by (simp add: upt_conv_Cons)
  qed
qed

lemma chunk_jobs_boundary:
  assumes "0 < k" and "k < fsize div block_size"
  shows "(\<exists>a. (a, k * block_size) \<in> set (chunk_jobs fsize (fsize div block_size) 0))
       \<and> (\<exists>e. (k * block_size, e) \<in> set (chunk_jobs fsize (fsize div block_size) 0))"
proof -
  let ?cnt = "fsize div block_size"
  let ?f = "\<lambda>k. (k * block_size, if k + 1 = ?cnt then fsize else (k + 1) * block_size)"
  have eq: "chunk_jobs fsize ?cnt 0 = map ?f [0..<?cnt]"
    by (rule chunk_jobs_eq) simp
  from assms have m: "k - 1 \<in> set [0..<?cnt]" "k \<in> set [0..<?cnt]" by auto
  have "?f (k - 1) \<in> ?f ` set [0..<?cnt]" using m(1) by (rule imageI)
  then have 1: "?f (k - 1) \<in> set (chunk_jobs fsize ?cnt 0)"
    unfolding eq by (simp only: set_map)
  have "?f k \<in> ?f ` set [0..<?cnt]" using m(2) by (rule imageI)
  then have 2: "?f k \<in> set (chunk_jobs fsize ?cnt 0)"
    unfolding eq by (simp only: set_map)
  have "?f (k - 1) = ((k - 1) * block_size, k * block_size)"
    using assms by simp
  with 1 have "\<exists>a. (a, k * block_size) \<in> set (chunk_jobs fsize ?cnt 0)" by auto
  moreover from 2 have "\<exists>e. (k * block_size, e) \<in> set (chunk_jobs fsize ?cnt 0)"
    by (intro exI [of _ "snd (?f k)"]) simp
  ultimately show ?thesis ..
qed

lemma rawmemchr_finds:
  "n < length mem \<Longrightarrow> mem ! n = c \<Longrightarrow> s \<le> n \<Longrightarrow> (\<forall>i. s \<le> i \<and> i < n \<longrightarrow> mem ! i \<noteq> c)
   \<Longrightarrow> rawmemchr mem s c = Inr n"
proof (induction "n - s" arbitrary: s)
  case 0
  then have "s = n" by simp
  with "0.prems" show ?case by (subst rawmemchr.simps) simp
next
  case (Suc k)
  then have s: "s < n" by simp
  with Suc.prems have ne: "mem ! s \<noteq> c" and len: "s < length mem" by auto
  have "rawmemchr mem (s + 1) c = Inr n"
    using Suc.hyps(2) Suc.prems s by (intro Suc.hyps(1)) auto
  with ne len show ?case by (subst rawmemchr.simps) simp
qed

lemma rawmemchr_result:
  "rawmemchr mem s c = Inr n
   \<Longrightarrow> n < length mem \<and> mem ! n = c \<and> s \<le> n \<and> (\<forall>i. s \<le> i \<and> i < n \<longrightarrow> mem ! i \<noteq> c)"
proof (induction mem s c rule: rawmemchr.induct)
  case (1 mem s c)
  show ?case
  proof (cases "s < length mem \<and> mem ! s \<noteq> c")
    case True
    with "1.prems" have "rawmemchr mem (s + 1) c = Inr n"
      by (subst (asm) rawmemchr.simps) simp
    with True "1.IH" have ih: "n < length mem \<and> mem ! n = c \<and> s + 1 \<le> n
        \<and> (\<forall>i. s + 1 \<le> i \<and> i < n \<longrightarrow> mem ! i \<noteq> c)" by simp
    have "mem ! i \<noteq> c" if "s \<le> i \<and> i < n" for i
      using that True ih by (cases "i = s") auto
    with ih show ?thesis by auto
  next
    case False
    with "1.prems" show ?thesis
      by (subst (asm) rawmemchr.simps) (auto split: if_splits)
  qed
qed

lemma realign_iff:
  "s < length mem \<Longrightarrow>
   ((if mem ! s \<noteq> newline then rawmemchr mem s newline else Inr s) = Inr n)
     = first_newline mem s n"
proof (cases "mem ! s = newline")
  case True
  assume "s < length mem"
  with True show ?thesis
    unfolding first_newline_def by (auto simp: le_less)
next
  case False
  then show ?thesis
    unfolding first_newline_def
    using rawmemchr_result [of mem s newline n] rawmemchr_finds [of n mem newline s]
    by auto
qed

lemma chunk_starts_iff:
  "chunk_starts mem s e = Inr ps
     \<longleftrightarrow> (\<exists>n. first_newline mem s n \<and> starts_loop mem (n + 1) e = Inr ps)"
proof (cases "s < length mem")
  case True
  let ?R = "if mem ! s \<noteq> newline then rawmemchr mem s newline else Inr s"
  show ?thesis
  proof (cases ?R)
    case (Inl x)
    with realign_iff [OF True] have "\<not> first_newline mem s n" for n by simp
    with Inl True show ?thesis by (simp add: chunk_starts_def)
  next
    case (Inr m)
    with realign_iff [OF True] have "first_newline mem s n \<longleftrightarrow> m = n" for n by simp
    with Inr True show ?thesis by (simp add: chunk_starts_def)
  qed
next
  case False
  then show ?thesis by (auto simp: chunk_starts_def first_newline_def)
qed

lemma first_newline_later:
  "first_newline mem a n \<Longrightarrow> a \<le> b \<Longrightarrow> b \<le> n \<Longrightarrow> first_newline mem b n"
  by (auto simp: first_newline_def)

text \<open>The chunk that ends earlier decodes the records that start before its end.\<close>

lemma starts_loop_prefix:
  "starts_loop mem cur e = Inr ps \<Longrightarrow> b \<le> e
   \<Longrightarrow> starts_loop mem cur b = Inr (filter (\<lambda>p. p < b) ps)"
proof (induction mem cur e arbitrary: ps rule: starts_loop.induct)
  case (1 mem cur e)
  show ?case
  proof (cases "cur < b")
    case False
    from starts_loop_range [OF "1.prems"(1)] False have "filter (\<lambda>p. p < b) ps = []"
      by (auto simp: filter_empty_conv)
    with False show ?thesis by (subst starts_loop.simps) simp
  next
    case True
    with "1.prems"(2) have lt: "cur < e" by simp
    with "1.prems"(1) obtain cur' city product price rest where
      c: "consume_record mem cur = Inr (cur', city, product, price)"
      and d: "starts_loop mem cur' e = Inr rest" and ps: "ps = cur # rest"
      by (subst (asm) starts_loop.simps) (auto split: sum.splits prod.splits)
    from "1.IH" [OF lt c refl refl refl d "1.prems"(2)]
    have "starts_loop mem cur' b = Inr (filter (\<lambda>p. p < b) rest)" .
    with True c show ?thesis by (subst starts_loop.simps) (simp add: ps)
  qed
qed

text \<open>The record that holds the byte at \<open>b\<close>, and the loop from the end of that record.\<close>

lemma starts_loop_record_at:
  "starts_loop mem cur e = Inr ps \<Longrightarrow> cur \<le> b \<Longrightarrow> b < e
   \<Longrightarrow> \<exists>p p' c pr v. p \<in> set ps \<and> consume_record mem p = Inr (p', c, pr, v) \<and> p \<le> b \<and> b < p'
         \<and> starts_loop mem p' e = Inr (filter (\<lambda>x. b < x) ps)"
proof (induction mem cur e arbitrary: ps rule: starts_loop.induct)
  case (1 mem cur e)
  from "1.prems"(2,3) have lt: "cur < e" by simp
  with "1.prems"(1) obtain cur' city product price rest where
    c: "consume_record mem cur = Inr (cur', city, product, price)"
    and d: "starts_loop mem cur' e = Inr rest" and ps: "ps = cur # rest"
    by (subst (asm) starts_loop.simps) (auto split: sum.splits prod.splits)
  show ?case
  proof (cases "b < cur'")
    case True
    from starts_loop_range [OF d] True have "filter (\<lambda>x. b < x) rest = rest"
      by (auto simp: filter_id_conv)
    with "1.prems"(2) have "filter (\<lambda>x. b < x) ps = rest" by (simp add: ps)
    with c d True "1.prems"(2) show ?thesis by (auto simp: ps)
  next
    case False
    then have "cur' \<le> b" by simp
    from "1.IH" [OF lt c refl refl refl d this "1.prems"(3)]
    obtain p p' c' pr v where "p \<in> set rest" "consume_record mem p = Inr (p', c', pr, v)"
      "p \<le> b" "b < p'" "starts_loop mem p' e = Inr (filter (\<lambda>x. b < x) rest)"
      by blast
    with "1.prems"(2) show ?thesis by (auto simp: ps)
  qed
qed

lemma integral_part_in_mem: "integral_part mem start a = Inr (p, v, c) \<Longrightarrow> p < length mem"
proof (induction mem start a rule: integral_part.induct)
  case (1 mem start a)
  show ?case
  proof (cases "start < length mem \<and> is_digit (mem ! start)")
    case True
    with "1.prems" have
      "integral_part mem (start + 1) (a * 10 + of_nat (of_char (mem ! start)) - 48) = Inr (p, v, c)"
      by (subst (asm) integral_part.simps) (simp add: Let_def)
    with True "1.IH" show ?thesis by simp
  next
    case False
    with "1.prems" show ?thesis
      by (subst (asm) integral_part.simps) (auto simp: Let_def split: if_splits)
  qed
qed

lemma consume_float_as_long_in_mem:
  "consume_float_as_long mem start = Inr (p, v) \<Longrightarrow> p \<le> length mem"
  unfolding consume_float_as_long_def
  by (auto simp: Let_def split: sum.splits prod.splits if_splits dest!: integral_part_in_mem)

lemma consume_record_in_mem:
  "consume_record mem cur = Inr (p, c, q, v) \<Longrightarrow> p \<le> length mem"
  unfolding consume_record_def
  by (auto split: sum.splits prod.splits dest!: consume_float_as_long_in_mem)

text \<open>
  Two adjacent chunks against the one chunk that spans both. When the boundary \<open>b\<close>
  is not the start of a record and the records are well-formed, the chunk before
  \<open>b\<close> decodes the records that start before \<open>b\<close> and the chunk behind \<open>b\<close> the
  records that start behind \<open>b\<close>: every record is decoded by exactly one of the
  two.
\<close>

lemma chunk_split:
  assumes "chunk_starts mem a e = Inr ps" and "a \<le> b" and "b < e" and "b \<notin> set ps"
    and "\<forall>p\<in>set ps. one_line mem p"
  shows "chunk_starts mem a b = Inr (filter (\<lambda>p. p < b) ps)
       \<and> chunk_starts mem b e = Inr (filter (\<lambda>p. b < p) ps)"
proof -
  from assms(1) obtain n where n: "first_newline mem a n"
    and loop: "starts_loop mem (n + 1) e = Inr ps"
    by (auto simp: chunk_starts_iff)
  from starts_loop_prefix [OF loop] assms(3) n
  have 1: "chunk_starts mem a b = Inr (filter (\<lambda>p. p < b) ps)"
    by (auto simp: chunk_starts_iff)
  have 2: "chunk_starts mem b e = Inr (filter (\<lambda>p. b < p) ps)"
  proof (cases "b \<le> n")
    case True
    from first_newline_later [OF n assms(2) True] have "first_newline mem b n" .
    moreover from starts_loop_range [OF loop] True have "filter (\<lambda>p. b < p) ps = ps"
      by (auto simp: filter_id_conv)
    ultimately show ?thesis using loop by (auto simp: chunk_starts_iff)
  next
    case False
    then have "n + 1 \<le> b" by simp
    from starts_loop_record_at [OF loop this assms(3)]
    obtain p p' c pr v where p: "p \<in> set ps" "consume_record mem p = Inr (p', c, pr, v)"
      "p \<le> b" "b < p'" and rest: "starts_loop mem p' e = Inr (filter (\<lambda>x. b < x) ps)"
      by blast
    from p(1) assms(5) p(2) have nl: "mem ! (p' - 1) = newline"
      and no: "\<forall>i. p \<le> i \<and> i < p' - 1 \<longrightarrow> mem ! i \<noteq> newline"
      by (auto simp: one_line_def)
    from consume_record_in_mem [OF p(2)] p(4) have "p' - 1 < length mem" by simp
    with nl no p(3,4) have "first_newline mem b (p' - 1)"
      by (auto simp: first_newline_def)
    moreover from p(4) have "p' - 1 + 1 = p'" by simp
    ultimately show ?thesis using rest by (auto simp: chunk_starts_iff)
  qed
  from 1 2 show ?thesis ..
qed

lemma decode_loop_starts:
  "starts_loop mem cur e = Inr ps \<Longrightarrow> decode_loop mem cur e = Inr (map (row_at mem) ps)"
proof (induction mem cur e arbitrary: ps rule: starts_loop.induct)
  case (1 mem cur e)
  show ?case
  proof (cases "cur < e")
    case False
    with "1.prems" have "ps = []" by (subst (asm) starts_loop.simps) simp
    with False show ?thesis by (subst decode_loop.simps) simp
  next
    case True
    with "1.prems" obtain cur' city product price rest where
      c: "consume_record mem cur = Inr (cur', city, product, price)"
      and d: "starts_loop mem cur' e = Inr rest" and ps: "ps = cur # rest"
      by (subst (asm) starts_loop.simps) (auto split: sum.splits prod.splits)
    from "1.IH" [OF True c refl refl refl d]
    have "decode_loop mem cur' e = Inr (map (row_at mem) rest)" .
    with True c show ?thesis
      by (subst decode_loop.simps) (simp add: ps row_at_def)
  qed
qed

lemma chunk_rows_starts:
  "chunk_starts mem s e = Inr ps \<Longrightarrow> chunk_rows mem s e = Inr (map (row_at mem) ps)"
  unfolding chunk_starts_def chunk_rows_def
  by (auto split: if_splits sum.splits simp: decode_loop_starts)

lemma mset_filter_split:
  assumes "b \<notin> set ps"
  shows "mset (map f (filter (\<lambda>p. p < b) ps)) + mset (map f (filter (\<lambda>p. b < p) ps))
           = mset (map f (ps :: nat list))"
proof -
  have "b < p \<longleftrightarrow> \<not> p < b" if "p \<in> set ps" for p
    using that assms by (cases "p = b") auto
  then have "filter (\<lambda>p. b < p) ps = filter (\<lambda>p. \<not> p < b) ps"
    by (intro filter_cong) auto
  then show ?thesis by (simp flip: image_mset_union)
qed

text \<open>
  The report of two adjacent chunks against the report of the one chunk that spans
  both: the same, as long as the boundary is not the start of a record (for
  records within the capacity of the arrays, one city of which has a total below
  the initial value of \<^verbatim>\<open>min_city_cost\<close>).
\<close>

lemma split_chunk_same_report:
  assumes "chunk_starts mem a e = Inr ps" and "a \<le> b" and "b < e" and "b \<notin> set ps"
    and "\<forall>p\<in>set ps. one_line mem p"
    and "capacity (map (row_at mem) ps)" and "has_winner (map (row_at mem) ps)"
    and "0 < n1" and "0 < n2"
  shows "\<exists>rep. report_of_jobs mem n1 sched1 [(a, e)] = Inr rep
     \<and> report_of_jobs mem n2 sched2 [(a, b), (b, e)] = Inr rep"
proof -
  from chunk_split [OF assms(1-5)]
  have 1: "chunk_starts mem a b = Inr (filter (\<lambda>p. p < b) ps)"
    and 2: "chunk_starts mem b e = Inr (filter (\<lambda>p. b < p) ps)" by simp_all
  let ?r1 = "map (row_at mem) (filter (\<lambda>p. p < b) ps)"
  let ?r2 = "map (row_at mem) (filter (\<lambda>p. b < p) ps)"
  have h1: "list_all2 (\<lambda>job rows. chunk_rows mem (fst job) (snd job) = Inr rows)
      [(a, e)] [map (row_at mem) ps]"
    using chunk_rows_starts [OF assms(1)] by simp
  have h2: "list_all2 (\<lambda>job rows. chunk_rows mem (fst job) (snd job) = Inr rows)
      [(a, b), (b, e)] [?r1, ?r2]"
    using chunk_rows_starts [OF 1] chunk_rows_starts [OF 2] by simp
  have h3: "mset (concat [map (row_at mem) ps]) = mset (concat [?r1, ?r2])"
    using mset_filter_split [OF assms(4), of "row_at mem"] by simp
  have h4: "capacity (concat [map (row_at mem) ps])" using assms(6) by simp
  have h5: "has_winner (concat [map (row_at mem) ps])" using assms(7) by simp
  from same_rows_same_report [OF h1 h2 h3 h4 h5 assms(8,9), of sched1 sched2]
  show ?thesis by blast
qed

lemmas starts_simps =
  chunk_starts_def starts_loop.simps roundtrip_mem_def roundtrip_def newline_def rawmemchr.simps
  consume_record_def consume_str.simps consume_float_as_long_def integral_part.simps
  fractional_part.simps is_digit_def

lemma chunk_rows_roundtrip_boundary:
  "chunk_rows roundtrip_mem 0 37 = Inr [(''A'', ''X'', 150), (''A'', ''Y'', 200)]"
  "chunk_rows roundtrip_mem 37 55 = Inr [(''B'', ''X'', 50)]"
  by (simp_all add: decode_simps)

lemma chunk_starts_roundtrip:
  "chunk_starts roundtrip_mem 0 55 = Inr [19, 28, 37, 46]"
  "chunk_starts roundtrip_mem 0 37 = Inr [19, 28]"
  "chunk_starts roundtrip_mem 37 55 = Inr [46]"
  by (simp_all add: starts_simps)

lemma all_between: "(\<forall>i. a \<le> i \<and> i < b \<longrightarrow> P i) \<longleftrightarrow> list_all P [a..<b]"
  by (auto simp: list_all_iff)

text \<open>On the mapping of the round-trip input: the boundary 30 lies inside the record
  at 28, and the chunks from 0 to 30 and from 30 to 55 decode the four records
  between them.\<close>

lemma one_line_roundtrip: "\<forall>p\<in>set [19, 28, 37, 46]. one_line roundtrip_mem p"
  by (simp add: one_line_def decode_simps all_between upt_rec [of "numeral m" for m]
      upt_rec [of "Suc m" for m])

lemma chunk_split_roundtrip:
  "chunk_starts roundtrip_mem 0 30 = Inr [19, 28] \<and> chunk_starts roundtrip_mem 30 55 = Inr [37, 46]"
  using chunk_split [OF chunk_starts_roundtrip(1) _ _ _ one_line_roundtrip, of 30] by simp

lemma consume_record_roundtrip:
  "consume_record roundtrip_mem 37 = Inr (46, ''B'', ''X'', 100)"
  by (simp add: decode_simps)

lemma run_jobs_boundary:
  "run_jobs roundtrip_mem (\<lambda>j. j) 0 [(0, 37), (37, 55)] (replicate 2 Result_init)
     = Inr [\<lparr>city_cost = (\<lambda>_. 0)(0 := 350),
             product_cost = (\<lambda>_. sentinel)((0, 0) := 150, (0, 1) := 200),
             product_id = [(''X'', 0), (''Y'', 1)], city_id = [(''A'', 0)]\<rparr>,
            \<lparr>city_cost = (\<lambda>_. 0)(0 := 50),
             product_cost = (\<lambda>_. sentinel)((0, 0) := 50),
             product_id = [(''X'', 0)], city_id = [(''B'', 0)]\<rparr>]"
  by (simp add: process_chunk_rows [OF chunk_rows_roundtrip_boundary(1)]
      process_chunk_rows [OF chunk_rows_roundtrip_boundary(2)] aggregate_simps replicate_num
      Let_def)

lemma report_of_jobs_boundary:
  "report_of_jobs roundtrip_mem 2 (\<lambda>j. j) [(0, 37), (37, 55)]
     = Inr [(''B'', 50), (''X'', 50), (''Y'', 4000000000000000000), ([], 0), ([], 0), ([], 0)]"
  unfolding report_of_jobs_def run_jobs_boundary
  by (simp add: aggregate_simps ans_simps fun_eq_iff)

text \<open>
  Claim C8 (the code does not do what the claim says). In the mapping of the
  round-trip input the record \<^verbatim>\<open>B,X,1.00\<close> starts at offset 37, right behind the
  newline at offset 36. Cut into the chunks from 0 to 37 and from 37 to 55, the
  first chunk decodes the records at 19 and 28 and stops, the second one realigns
  behind the newline that ends the record at 37 and decodes the record at 46
  only: the record at 37 is decoded by neither chunk, and the report gives city B
  the total 50 where the single chunk from 0 to 55 gives 150.
\<close>

theorem record_on_chunk_boundary_dropped:
  "roundtrip_mem ! 36 = newline
   \<and> consume_record roundtrip_mem 37 = Inr (46, ''B'', ''X'', 100)
   \<and> chunk_starts roundtrip_mem 0 55 = Inr [19, 28, 37, 46]
   \<and> chunk_starts roundtrip_mem 0 37 = Inr [19, 28]
   \<and> chunk_starts roundtrip_mem 37 55 = Inr [46]
   \<and> chunk_rows roundtrip_mem 0 37 = Inr [(''A'', ''X'', 150), (''A'', ''Y'', 200)]
   \<and> chunk_rows roundtrip_mem 37 55 = Inr [(''B'', ''X'', 50)]
   \<and> report_of_jobs roundtrip_mem 1 (\<lambda>j. 0) [(0, 55)]
       = Inr [(''B'', 150), (''X'', 50), (''Y'', 4000000000000000000), ([], 0), ([], 0), ([], 0)]
   \<and> report_of_jobs roundtrip_mem 2 (\<lambda>j. j) [(0, 37), (37, 55)]
       = Inr [(''B'', 50), (''X'', 50), (''Y'', 4000000000000000000), ([], 0), ([], 0), ([], 0)]"
proof -
  have "roundtrip_mem ! 36 = newline"
    by (simp add: roundtrip_mem_def roundtrip_def newline_def)
  with consume_record_roundtrip chunk_starts_roundtrip chunk_rows_roundtrip_boundary
    report_of_jobs_roundtrip report_of_jobs_boundary
  show ?thesis by (simp add: roundtrip_report_def)
qed

end
